theory Spec2Isabelle
  imports Main
begin

section \<open>The marker pattern\<close>

text \<open>
  The node \<open>CdpTools\<close> rewrites the element markers of an accessibility tree, which
  it finds with the regular expression \<^verbatim>\<open>/\[((?:\d+-)?\d+)\] /g\<close>. A JavaScript string
  is a sequence of code units, modelled as a \<open>string\<close>; the pattern only tells the ASCII
  digits, the brackets, the hyphen and the space from everything else, and every other
  code unit is opaque to it.

  The pattern is kept as a term of a small regular-expression syntax and is run by a
  backtracking matcher that returns the ways to match in the order a backtracking
  engine tries them (a greedy quantifier tries one more iteration before it tries to
  stop). A match state is the input still to be read and the text captured by the one
  capture group, \<open>None\<close> while the group has not taken part.

  The constructors are the forms the pattern uses: a literal character, \<^verbatim>\<open>\d\<close> (without
  the \<open>u\<close> flag: the ten ASCII digits), concatenation, \<open>r?\<close>, \<open>r*\<close>, and a capture group;
  \<open>r+\<close> is \<open>r\<close> followed by \<open>r*\<close>, and a non-capturing group is its body. As in the
  language definition, an iteration of \<open>r?\<close> or \<open>r*\<close> that reads nothing is not taken.

  Two limits of an implementation are left out: strings have no greatest length, and
  the counter of the loop is a natural number (in the source a Number, exact far beyond
  the number of markers a string can hold).
\<close>

definition is_digit :: "char \<Rightarrow> bool" where
  "is_digit c \<longleftrightarrow> c \<in> set ''0123456789''"

datatype rx = Lit char | Digit | Seq rx rx | Opt rx | Star rx | Group rx

definition Plus :: "rx \<Rightarrow> rx" where
  "Plus r = Seq r (Star r)"

type_synonym mstate = "string \<times> string option"

function run :: "rx \<Rightarrow> mstate \<Rightarrow> mstate list" where
  "run (Lit c) st =
     (case fst st of [] \<Rightarrow> [] | x # xs \<Rightarrow> if x = c then [(xs, snd st)] else [])"
| "run Digit st =
     (case fst st of [] \<Rightarrow> [] | x # xs \<Rightarrow> if is_digit x then [(xs, snd st)] else [])"
| "run (Seq r1 r2) st = concat (map (run r2) (run r1 st))"
| "run (Opt r) st =
     filter (\<lambda>st'. length (fst st') < length (fst st)) (run r st) @ [st]"
| "run (Star r) st =
     concat (map (\<lambda>st'. if length (fst st') < length (fst st) then run (Star r) st' else [])
                 (run r st)) @ [st]"
| "run (Group r) st =
     map (\<lambda>st'. (fst st', Some (take (length (fst st) - length (fst st')) (fst st))))
         (run r st)"
  by pat_completeness auto
termination
  by (relation "measure size <*lex*> measure (length \<circ> fst)") auto

declare run.simps(5) [simp del]

text \<open>The pattern \<^verbatim>\<open>\[((?:\d+-)?\d+)\] \<close>, part by part.\<close>

definition marker_rx :: rx where
  "marker_rx =
     Seq (Lit CHR ''['')
       (Seq (Group (Seq (Opt (Seq (Plus Digit) (Lit CHR ''-''))) (Plus Digit)))
         (Seq (Lit CHR '']'') (Lit CHR '' '')))"

text \<open>
  One attempt at the start of \<open>s\<close>: the first way to match, as the matched text and
  the capture.
\<close>

definition rx_exec :: "rx \<Rightarrow> string \<Rightarrow> (string \<times> string option) option" where
  "rx_exec r s =
     (case run r (s, None) of
        [] \<Rightarrow> None
      | st # _ \<Rightarrow> Some (take (length s - length (fst st)) s, snd st))"

lemma rx_exec_length:
  "rx_exec r s = Some (w, c) \<Longrightarrow> length w \<le> length s"
  by (auto simp: rx_exec_def split: list.splits)

text \<open>
  A match object: \<open>match.index\<close>, \<open>match[0]\<close> and \<open>match[1]\<close> (\<open>None\<close> for
  \<open>undefined\<close>).
\<close>

record match =
  index :: nat
  whole :: string
  group1 :: "string option"

text \<open>
  \<open>String.prototype.matchAll\<close> with a global pattern: the pattern is tried at every
  position from the last index on; after a match the last index is the end of the
  match, or one further when the match is empty. \<open>scan r i s\<close> is the sequence of
  matches in the suffix \<open>s\<close> that starts at position \<open>i\<close>.
\<close>

function scan :: "rx \<Rightarrow> nat \<Rightarrow> string \<Rightarrow> match list" where
  "scan r i s =
     (case rx_exec r s of
        None \<Rightarrow> (case s of [] \<Rightarrow> [] | _ # s' \<Rightarrow> scan r (i + 1) s')
      | Some (w, c) \<Rightarrow>
          \<lparr>index = i, whole = w, group1 = c\<rparr> #
          (if w = [] then (case s of [] \<Rightarrow> [] | _ # s' \<Rightarrow> scan r (i + 1) s')
           else scan r (i + length w) (drop (length w) s)))"
  by pat_completeness auto
termination
proof (relation "measure (\<lambda>(r, i, s). length s)", goal_cases)
  case 1
  show ?case by simp
next
  case (2 r i s c s')
  then show ?case by simp
next
  case (3 r i s p w c a s')
  then show ?case by simp
next
  case (4 r i s p w c)
  then show ?case using rx_exec_length[of r s w c] by (cases s) auto
qed

declare scan.simps [simp del]

definition matchAll :: "string \<Rightarrow> match list" where
  "matchAll s = scan marker_rx 0 s"

section \<open>What the pattern matches\<close>

text \<open>
  The form of a marker in words: an opening bracket, an id, a closing bracket and one
  space, where an id is one or more digits, or one or more digits, a hyphen and one or
  more digits.
\<close>

definition digits1 :: "string \<Rightarrow> bool" where
  "digits1 d \<longleftrightarrow> d \<noteq> [] \<and> list_all is_digit d"

definition marker_id :: "string \<Rightarrow> bool" where
  "marker_id g \<longleftrightarrow>
     takeWhile is_digit g \<noteq> [] \<and>
     (case dropWhile is_digit g of [] \<Rightarrow> True | c # e \<Rightarrow> c = CHR ''-'' \<and> digits1 e)"

definition marker_text :: "string \<Rightarrow> string" where
  "marker_text g = ''['' @ g @ ''] ''"

lemma not_digit_hyphen [simp]:
  "\<not> is_digit CHR ''-''" "\<not> is_digit CHR '']''" "\<not> is_digit CHR ''[''"
  "\<not> is_digit CHR '' ''"
  by (simp_all add: is_digit_def)

lemma marker_id_iff:
  "marker_id g \<longleftrightarrow> digits1 g \<or> (\<exists>d e. digits1 d \<and> digits1 e \<and> g = d @ CHR ''-'' # e)"
proof
  assume a: "marker_id g"
  let ?d = "takeWhile is_digit g" and ?r = "dropWhile is_digit g"
  have g: "?d @ ?r = g" by simp
  have d: "digits1 ?d" using a by (auto simp: marker_id_def digits1_def list_all_iff dest: set_takeWhileD)
  show "digits1 g \<or> (\<exists>d e. digits1 d \<and> digits1 e \<and> g = d @ CHR ''-'' # e)"
  proof (cases ?r)
    case Nil
    then have "?d = g" using g by (metis append_Nil2)
    then have "digits1 g" using d by metis
    then show ?thesis by blast
  next
    case (Cons c e)
    then have "c = CHR ''-''" "digits1 e" using a by (auto simp: marker_id_def)
    then have "g = ?d @ CHR ''-'' # e" using g Cons by metis
    then show ?thesis using d \<open>digits1 e\<close> by blast
  qed
next
  assume "digits1 g \<or> (\<exists>d e. digits1 d \<and> digits1 e \<and> g = d @ CHR ''-'' # e)"
  then show "marker_id g"
  proof
    assume "digits1 g"
    then have tw: "takeWhile is_digit g = g" and dw: "dropWhile is_digit g = []"
      by (auto simp: digits1_def list_all_iff)
    show ?thesis unfolding marker_id_def tw dw
      using \<open>digits1 g\<close> by (simp add: digits1_def)
  next
    assume "\<exists>d e. digits1 d \<and> digits1 e \<and> g = d @ CHR ''-'' # e"
    then obtain d e where de: "digits1 d" "digits1 e" "g = d @ CHR ''-'' # e" by blast
    have tw: "takeWhile is_digit g = d" and dw: "dropWhile is_digit g = CHR ''-'' # e"
      using de by (auto simp: digits1_def list_all_iff takeWhile_append2 dropWhile_append2)
    show ?thesis unfolding marker_id_def tw dw
      using de by (simp add: digits1_def)
  qed
qed

text \<open>
  What the matcher returns on the parts of the pattern, as sets of match states, up to
  the whole pattern: it matches at the start of a string exactly when the string starts
  with a marker, in one way only.
\<close>

lemma run_Star_Digit_Nil: "run (Star Digit) ([], c) = [([], c)]"
  by (subst run.simps(5)) simp

lemma run_Star_Digit_Cons:
  "run (Star Digit) (x # xs, c) =
     (if is_digit x then run (Star Digit) (xs, c) @ [(x # xs, c)] else [(x # xs, c)])"
  by (subst run.simps(5)) simp

lemma run_Star_Digit_set:
  "set (run (Star Digit) (s, c)) = {(s', c) | s'. \<exists>d. list_all is_digit d \<and> s = d @ s'}"
proof (induction s)
  case Nil
  show ?case by (auto simp: run_Star_Digit_Nil)
next
  case (Cons x xs)
  show ?case
  proof (cases "is_digit x")
    case True
    have "{(s', c) | s'. \<exists>d. list_all is_digit d \<and> x # xs = d @ s'} =
          {(s', c) | s'. \<exists>d. list_all is_digit d \<and> xs = d @ s'} \<union> {(x # xs, c)}"
      (is "?A = ?B \<union> ?C")
    proof (intro set_eqI iffI)
      fix p assume "p \<in> ?A"
      then obtain s' d where p: "p = (s', c)" "list_all is_digit d" "x # xs = d @ s'" by blast
      show "p \<in> ?B \<union> ?C"
      proof (cases d)
        case Nil then show ?thesis using p by simp
      next
        case (Cons y d')
        then have "list_all is_digit d'" "xs = d' @ s'" using p by auto
        then show ?thesis using p by blast
      qed
    next
      fix p assume "p \<in> ?B \<union> ?C"
      then show "p \<in> ?A"
      proof
        assume "p \<in> ?B"
        then obtain s' d where p: "p = (s', c)" "list_all is_digit d" "xs = d @ s'" by blast
        then have "list_all is_digit (x # d)" "x # xs = (x # d) @ s'" using True by auto
        then show ?thesis using p(1) by blast
      next
        assume "p \<in> ?C"
        then have "p = (x # xs, c)" by simp
        moreover have "list_all is_digit []" "x # xs = [] @ x # xs" by auto
        ultimately show ?thesis by blast
      qed
    qed
    then show ?thesis using True Cons by (simp add: run_Star_Digit_Cons)
  next
    case False
    have "{(s', c) | s'. \<exists>d. list_all is_digit d \<and> x # xs = d @ s'} = {(x # xs, c)}"
      using False by (auto simp: Cons_eq_append_conv)
    then show ?thesis using False by (simp add: run_Star_Digit_Cons)
  qed
qed

lemma run_Plus_Digit_set:
  "set (run (Plus Digit) (s, c)) = {(s', c) | s'. \<exists>d. digits1 d \<and> s = d @ s'}"
proof (cases s)
  case Nil
  then show ?thesis by (auto simp: Plus_def digits1_def)
next
  case (Cons x xs)
  show ?thesis
  proof (cases "is_digit x")
    case True
    have "{(s', c) | s'. \<exists>d. digits1 d \<and> x # xs = d @ s'} =
          {(s', c) | s'. \<exists>d. list_all is_digit d \<and> xs = d @ s'}" (is "?A = ?B")
    proof (intro set_eqI iffI)
      fix p assume "p \<in> ?A"
      then obtain s' d where p: "p = (s', c)" "digits1 d" "x # xs = d @ s'" by blast
      then obtain d' where "d = x # d'" by (cases d) (auto simp: digits1_def)
      then have "list_all is_digit d'" "xs = d' @ s'" using p by (auto simp: digits1_def)
      then show "p \<in> ?B" using p by blast
    next
      fix p assume "p \<in> ?B"
      then obtain s' d where p: "p = (s', c)" "list_all is_digit d" "xs = d @ s'" by blast
      then have "digits1 (x # d)" "x # xs = (x # d) @ s'" using True by (auto simp: digits1_def)
      then show "p \<in> ?A" using p(1) by blast
    qed
    then show ?thesis using True Cons by (simp add: Plus_def run_Star_Digit_set)
  next
    case False
    have "{(s', c) | s'. \<exists>d. digits1 d \<and> x # xs = d @ s'} = {}"
      using False by (auto simp: digits1_def Cons_eq_append_conv)
    then show ?thesis using False Cons by (simp add: Plus_def)
  qed
qed

lemma run_Lit_set: "set (run (Lit a) (s, c)) = {(s', c) | s'. s = a # s'}"
  by (cases s) auto

lemma run_hyphen_set:
  "set (run (Seq (Plus Digit) (Lit CHR ''-'')) (s, c)) =
     {(s', c) | s'. \<exists>d. digits1 d \<and> s = d @ CHR ''-'' # s'}"
  (is "?L = ?R")
proof -
  have "?L = (\<Union>st' \<in> set (run (Plus Digit) (s, c)). set (run (Lit CHR ''-'') st'))"
    by simp
  also have "\<dots> = (\<Union>st' \<in> {(s', c) | s'. \<exists>d. digits1 d \<and> s = d @ s'}.
                      set (run (Lit CHR ''-'') st'))"
    by (simp only: run_Plus_Digit_set)
  also have "\<dots> = ?R"
    by (auto simp: run_Lit_set)
  finally show ?thesis .
qed

lemma digits1_nonempty: "digits1 d \<Longrightarrow> d \<noteq> []"
  by (simp add: digits1_def)

lemma run_Opt_hyphen_set:
  "set (run (Opt (Seq (Plus Digit) (Lit CHR ''-''))) (s, c)) =
     {(s', c) | s'. \<exists>d. digits1 d \<and> s = d @ CHR ''-'' # s'} \<union> {(s, c)}"
  (is "set (run (Opt ?r) _) = ?R \<union> _")
proof -
  have 1: "run (Opt ?r) (s, c) =
             filter (\<lambda>st'. length (fst st') < length s) (run ?r (s, c)) @ [(s, c)]"
    by (simp only: run.simps(4) fst_conv)
  have 2: "set (run (Opt ?r) (s, c)) = {st' \<in> ?R. length (fst st') < length s} \<union> {(s, c)}"
    unfolding 1 set_append set_filter run_hyphen_set by simp
  have "\<And>st'. st' \<in> ?R \<Longrightarrow> length (fst st') < length s"
    by auto
  then have "{st' \<in> ?R. length (fst st') < length s} = ?R"
    by blast
  then show ?thesis
    unfolding 2 by (rule arg_cong2[where f = "(\<union>)", OF _ refl])
qed

lemma run_id_set:
  "set (run (Seq (Opt (Seq (Plus Digit) (Lit CHR ''-''))) (Plus Digit)) (s, c)) =
     {(s', c) | s'. \<exists>g. marker_id g \<and> s = g @ s'}"
  (is "?L = ?R")
proof -
  have L: "?L = (\<Union>st' \<in> {(s', c) | s'. \<exists>d. digits1 d \<and> s = d @ CHR ''-'' # s'} \<union> {(s, c)}.
                  set (run (Plus Digit) st'))"
    by (simp only: run.simps(3) set_concat set_map image_image run_Opt_hyphen_set) 
  show ?thesis
  proof (intro set_eqI iffI)
    fix p assume "p \<in> ?L"
    then obtain st' where st': "st' \<in> {(s', c) | s'. \<exists>d. digits1 d \<and> s = d @ CHR ''-'' # s'} \<union> {(s, c)}"
      and p: "p \<in> set (run (Plus Digit) st')"
      unfolding L by blast
    from st' show "p \<in> ?R"
    proof
      assume "st' \<in> {(s', c) | s'. \<exists>d. digits1 d \<and> s = d @ CHR ''-'' # s'}"
      then obtain s1 d where 1: "st' = (s1, c)" "digits1 d" "s = d @ CHR ''-'' # s1" by blast
      with p obtain s' e where 2: "p = (s', c)" "digits1 e" "s1 = e @ s'"
        by (auto simp: run_Plus_Digit_set)
      have "marker_id (d @ CHR ''-'' # e)" using 1 2 marker_id_iff by blast
      moreover have "s = (d @ CHR ''-'' # e) @ s'" using 1 2 by simp
      ultimately show ?thesis using 2(1) by blast
    next
      assume "st' \<in> {(s, c)}"
      then have "st' = (s, c)" by simp
      with p obtain s' e where 2: "p = (s', c)" "digits1 e" "s = e @ s'"
        by (auto simp: run_Plus_Digit_set)
      then have "marker_id e" using marker_id_iff by blast
      then show ?thesis using 2 by blast
    qed
  next
    fix p assume "p \<in> ?R"
    then obtain s' g where 1: "p = (s', c)" "marker_id g" "s = g @ s'" by blast
    from 1(2) consider "digits1 g" | d e where "digits1 d" "digits1 e" "g = d @ CHR ''-'' # e"
      using marker_id_iff by blast
    then show "p \<in> ?L"
    proof cases
      case 1
      then have "p \<in> set (run (Plus Digit) (s, c))"
        using \<open>p = (s', c)\<close> \<open>s = g @ s'\<close> by (auto simp: run_Plus_Digit_set)
      then show ?thesis unfolding L by blast
    next
      case 2
      have a: "(e @ s', c) \<in> {(s', c) | s'. \<exists>d. digits1 d \<and> s = d @ CHR ''-'' # s'}"
        using 2 \<open>s = g @ s'\<close> by auto
      have "p \<in> set (run (Plus Digit) (e @ s', c))"
        using \<open>p = (s', c)\<close> 2 by (auto simp: run_Plus_Digit_set)
      then show ?thesis unfolding L using a by blast
    qed
  qed
qed

lemma run_Group_id_set:
  "set (run (Group (Seq (Opt (Seq (Plus Digit) (Lit CHR ''-''))) (Plus Digit))) (s, c)) =
     {(s', Some g) | s' g. marker_id g \<and> s = g @ s'}"
  (is "?L = ?R")
proof -
  have "?L = (\<lambda>st'. (fst st', Some (take (length s - length (fst st')) s))) `
               {(s', c) | s'. \<exists>g. marker_id g \<and> s = g @ s'}"
    by (simp only: run.simps(6) set_map run_id_set fst_conv)
  also have "\<dots> = ?R"
    by (auto simp: image_iff) 
  finally show ?thesis .
qed

lemma run_marker_set:
  "set (run marker_rx (s, None)) =
     {(s', Some g) | s' g. marker_id g \<and> s = marker_text g @ s'}"
  (is "?L = ?R")
proof -
  let ?grp = "Group (Seq (Opt (Seq (Plus Digit) (Lit CHR ''-''))) (Plus Digit))"
  let ?tail = "Seq (Lit CHR '']'') (Lit CHR '' '')"
  have tail: "\<And>t c. set (run ?tail (t, c)) = {(s', c) | s'. t = CHR '']'' # CHR '' '' # s'}"
    by (auto simp: run_Lit_set)
  have body: "\<And>t. set (run (Seq ?grp ?tail) (t, None)) =
      {(s', Some g) | s' g. marker_id g \<and> t = g @ CHR '']'' # CHR '' '' # s'}"
  proof -
    fix t
    have "set (run (Seq ?grp ?tail) (t, None)) =
        (\<Union>st' \<in> {(s', Some g) | s' g. marker_id g \<and> t = g @ s'}. set (run ?tail st'))"
      by (simp only: run.simps(3) set_concat set_map image_image run_Group_id_set)
    also have "\<dots> = {(s', Some g) | s' g. marker_id g \<and> t = g @ CHR '']'' # CHR '' '' # s'}"
      by (auto simp del: run.simps simp: tail)
    finally show "set (run (Seq ?grp ?tail) (t, None)) =
      {(s', Some g) | s' g. marker_id g \<and> t = g @ CHR '']'' # CHR '' '' # s'}" .
  qed
  have "?L = (\<Union>st' \<in> {(s', None) | s'. s = CHR ''['' # s'}. set (run (Seq ?grp ?tail) st'))"
    unfolding marker_rx_def
    by (simp only: run.simps(3)[of "Lit CHR ''[''"] set_concat set_map image_image run_Lit_set)
  also have "\<dots> = ?R"
    by (auto simp del: run.simps simp: body marker_text_def)
  finally show ?thesis .
qed

lemma marker_id_chars:
  assumes "marker_id g" and "x \<in> set g"
  shows "is_digit x \<or> x = CHR ''-''"
  using assms by (auto simp: marker_id_iff digits1_def list_all_iff)

lemma marker_id_no_bracket:
  "marker_id g \<Longrightarrow> CHR '']'' \<notin> set g" "marker_id g \<Longrightarrow> CHR ''['' \<notin> set g"
  using marker_id_chars[of g "CHR '']''"] marker_id_chars[of g "CHR ''[''"] by auto

lemma marker_id_nonempty: "marker_id g \<Longrightarrow> g \<noteq> []"
  by (auto simp: marker_id_def)

lemma marker_text_unique:
  assumes "marker_id g" "marker_id g'" "marker_text g @ r = marker_text g' @ r'"
  shows "g = g' \<and> r = r'"
proof -
  let ?P = "\<lambda>x. x \<noteq> CHR '']''"
  have eq: "g @ CHR '']'' # CHR '' '' # r = g' @ CHR '']'' # CHR '' '' # r'"
    using assms(3) by (simp add: marker_text_def)
  have "takeWhile ?P (g @ CHR '']'' # CHR '' '' # r) = g"
    using marker_id_no_bracket(1)[OF assms(1)] by (subst takeWhile_append2) auto
  moreover have "takeWhile ?P (g' @ CHR '']'' # CHR '' '' # r') = g'"
    using marker_id_no_bracket(1)[OF assms(2)] by (subst takeWhile_append2) auto
  ultimately have "g = g'" using eq by simp
  then show ?thesis using eq by simp
qed

lemma rx_exec_marker_Some:
  "rx_exec marker_rx s = Some (w, c) \<longleftrightarrow>
     (\<exists>g rest. marker_id g \<and> s = marker_text g @ rest \<and> w = marker_text g \<and> c = Some g)"
proof
  assume a: "rx_exec marker_rx s = Some (w, c)"
  then obtain st sts where run: "run marker_rx (s, None) = st # sts"
    and w: "w = take (length s - length (fst st)) s" and c: "c = snd st"
    by (auto simp: rx_exec_def split: list.splits)
  have "st \<in> set (run marker_rx (s, None))" using run by simp
  then obtain s' g where g: "st = (s', Some g)" "marker_id g" "s = marker_text g @ s'"
    unfolding run_marker_set by blast
  have "w = marker_text g" using w g by simp
  then show "\<exists>g rest. marker_id g \<and> s = marker_text g @ rest \<and> w = marker_text g \<and> c = Some g"
    using g c by auto
next
  assume "\<exists>g rest. marker_id g \<and> s = marker_text g @ rest \<and> w = marker_text g \<and> c = Some g"
  then obtain g rest where g: "marker_id g" "s = marker_text g @ rest" "w = marker_text g" "c = Some g"
    by blast
  then have "(rest, Some g) \<in> set (run marker_rx (s, None))"
    unfolding run_marker_set by blast
  then obtain st sts where run: "run marker_rx (s, None) = st # sts"
    by (cases "run marker_rx (s, None)") auto
  have "st \<in> set (run marker_rx (s, None))" using run by simp
  then obtain s' g' where g': "st = (s', Some g')" "marker_id g'" "s = marker_text g' @ s'"
    unfolding run_marker_set by blast
  have "g' = g \<and> s' = rest"
    using marker_text_unique[OF g'(2) g(1)] g(2) g'(3) by simp
  then show "rx_exec marker_rx s = Some (w, c)"
    using run g g' by (simp add: rx_exec_def)
qed

lemma rx_exec_marker_None:
  "rx_exec marker_rx s = None \<longleftrightarrow> \<not> (\<exists>g rest. marker_id g \<and> s = marker_text g @ rest)"
proof -
  have "rx_exec marker_rx s \<noteq> None \<longleftrightarrow> (\<exists>w c. rx_exec marker_rx s = Some (w, c))"
    by auto
  also have "\<dots> \<longleftrightarrow> (\<exists>g rest. marker_id g \<and> s = marker_text g @ rest)"
    unfolding rx_exec_marker_Some by blast
  finally show ?thesis by blast
qed

section \<open>The renumbering loop\<close>

text \<open>
  \<open>s.slice(a, b)\<close> and \<open>s.slice(a)\<close>: a negative position counts from the end, and
  every position is clamped to the string.
\<close>

definition slice :: "string \<Rightarrow> int \<Rightarrow> int \<Rightarrow> string" where
  "slice s a b =
     (let len = int (length s);
          from = (if a < 0 then max (len + a) 0 else min a len);
          to = (if b < 0 then max (len + b) 0 else min b len)
      in if from \<ge> to then [] else take (nat (to - from)) (drop (nat from) s))"

definition slice_from :: "string \<Rightarrow> int \<Rightarrow> string" where
  "slice_from s a = slice s a (int (length s))"

text \<open>
  The decimal numeral that the template literal writes for the counter \<open>j\<close>;
  \<open>digit_char\<close> is only applied to numbers below ten.
\<close>

definition digit_char :: "nat \<Rightarrow> char" where
  "digit_char d = ''0123456789'' ! d"

function number_to_string :: "nat \<Rightarrow> string" where
  "number_to_string n =
     (if n < 10 then [digit_char n]
      else number_to_string (n div 10) @ [digit_char (n mod 10)])"
  by pat_completeness auto
termination
  by (relation "measure id") auto

declare number_to_string.simps [simp del]

text \<open>A property key: \<open>undefined\<close> as a key is the string \<open>undefined\<close>.\<close>

definition prop_key :: "string option \<Rightarrow> string" where
  "prop_key k = (case k of None \<Rightarrow> ''undefined'' | Some g \<Rightarrow> g)"

text \<open>
  The variables of the loop over the matches in \<open>CdpTools.execute\<close>, and its body. The
  matches are those of the tree as it was fetched: \<open>matchAll\<close> is called before the loop
  and its iterator keeps reading that string while \<open>tree\<close> is assigned new values. The
  locator map \<open>nodesMap\<close> is a map from id strings to locators of any type; a missing
  key reads as \<open>undefined\<close>, here \<open>None\<close> (an id is made of digits and hyphens, so it
  names no property that an object inherits).
\<close>

record 'v loop_vars =
  tree :: string
  j :: nat
  offset :: int
  xpaths :: "'v option list"

definition replace_lit :: "nat \<Rightarrow> string" where
  "replace_lit n = ''['' @ number_to_string n @ ''] ''"

definition loop_body :: "(string \<rightharpoonup> 'v) \<Rightarrow> 'v loop_vars \<Rightarrow> match \<Rightarrow> 'v loop_vars" where
  "loop_body nodesMap st m =
     (let before = slice (tree st) 0 (int (index m) + offset st);
          after = slice_from (tree st) (int (index m) + int (length (whole m)) + offset st);
          replace = replace_lit (j st)
      in \<lparr>tree = before @ replace @ after,
          j = j st + 1,
          offset = offset st + (int (length replace) - int (length (whole m))),
          xpaths = xpaths st @ [nodesMap (prop_key (group1 m))]\<rparr>)"

text \<open>
  The \<open>json\<close> of one result item, and the loop run from \<open>j = 0\<close>, \<open>offset = 0\<close> and
  no locators on the matches of the tree.
\<close>

record 'v item_json =
  accessibilityTree :: string
  json_xpaths :: "'v option list"

definition renumber :: "(string \<rightharpoonup> 'v) \<Rightarrow> string \<Rightarrow> 'v item_json" where
  "renumber nodesMap tree0 =
     (let st = foldl (loop_body nodesMap)
                 \<lparr>tree = tree0, j = 0, offset = 0, xpaths = []\<rparr> (matchAll tree0)
      in \<lparr>accessibilityTree = tree st, json_xpaths = xpaths st\<rparr>)"

section \<open>A tree as text and markers\<close>

text \<open>
  For the proofs a tree is read as a sequence of segments: a character outside every
  match, or a match with its text and its capture. \<open>parse\<close> reads a string the way
  \<open>scan\<close> does, \<open>render\<close> writes the segments back, \<open>ms_of\<close> gives the match objects
  of the segments (it is \<open>scan\<close>, lemma \<open>scan_parse\<close>), and \<open>relabel\<close> numbers the
  markers from \<open>n\<close> on. The loop of the source is then shown to compute
  \<open>render (relabel 0 (parse tree))\<close>.
\<close>

datatype seg = Text char | Marker string "string option"

lemma rx_exec_marker_drop:
  "rx_exec marker_rx s = Some (w, c) \<Longrightarrow> length (drop (length w) s) < length s"
  by (auto simp: rx_exec_marker_Some marker_text_def)

function parse :: "string \<Rightarrow> seg list" where
  "parse s =
     (case rx_exec marker_rx s of
        None \<Rightarrow> (case s of [] \<Rightarrow> [] | c # cs \<Rightarrow> Text c # parse cs)
      | Some (w, g) \<Rightarrow> Marker w g # parse (drop (length w) s))"
  by pat_completeness auto
termination
proof (relation "measure length", goal_cases)
  case 1
  show ?case by simp
next
  case (2 s c cs)
  then show ?case by simp
next
  case (3 s p w g)
  then show ?case using rx_exec_marker_drop[of s w g] by simp
qed

declare parse.simps [simp del]

primrec render :: "seg list \<Rightarrow> string" where
  "render [] = []"
| "render (x # sg) = (case x of Text c \<Rightarrow> [c] | Marker w g \<Rightarrow> w) @ render sg"

primrec ms_of :: "nat \<Rightarrow> seg list \<Rightarrow> match list" where
  "ms_of i [] = []"
| "ms_of i (x # sg) =
     (case x of
        Text c \<Rightarrow> ms_of (i + 1) sg
      | Marker w g \<Rightarrow> \<lparr>index = i, whole = w, group1 = g\<rparr> # ms_of (i + length w) sg)"

primrec relabel :: "nat \<Rightarrow> seg list \<Rightarrow> seg list" where
  "relabel n [] = []"
| "relabel n (x # sg) =
     (case x of
        Text c \<Rightarrow> Text c # relabel n sg
      | Marker w g \<Rightarrow> Marker (replace_lit n) (Some (number_to_string n)) # relabel (n + 1) sg)"

definition starts_marker :: "string \<Rightarrow> bool" where
  "starts_marker s \<longleftrightarrow> (\<exists>g rest. marker_id g \<and> s = marker_text g @ rest)"

lemma rx_exec_marker_Nil: "rx_exec marker_rx [] = None"
  unfolding rx_exec_marker_None by (simp add: marker_text_def)

lemma parse_Nil [simp]: "parse [] = []"
  by (subst parse.simps) (simp add: rx_exec_marker_Nil)

lemma parse_hit:
  "marker_id g \<Longrightarrow> parse (marker_text g @ rest) = Marker (marker_text g) (Some g) # parse rest"
proof -
  assume g: "marker_id g"
  then have "rx_exec marker_rx (marker_text g @ rest) = Some (marker_text g, Some g)"
    unfolding rx_exec_marker_Some by blast
  then show ?thesis by (subst parse.simps) simp
qed

lemma parse_miss:
  "\<not> starts_marker (c # cs) \<Longrightarrow> parse (c # cs) = Text c # parse cs"
proof -
  assume "\<not> starts_marker (c # cs)"
  then have "rx_exec marker_rx (c # cs) = None"
    unfolding rx_exec_marker_None starts_marker_def .
  then show ?thesis by (subst parse.simps) simp
qed

lemma marker_induct [case_names Nil hit miss]:
  assumes "P []"
    and "\<And>g rest. marker_id g \<Longrightarrow> P rest \<Longrightarrow> P (marker_text g @ rest)"
    and "\<And>c cs. \<not> starts_marker (c # cs) \<Longrightarrow> P cs \<Longrightarrow> P (c # cs)"
  shows "P s"
proof (induction s rule: length_induct)
  case (1 s)
  show ?case
  proof (cases "starts_marker s")
    case True
    then obtain g rest where g: "marker_id g" "s = marker_text g @ rest"
      unfolding starts_marker_def by blast
    then have "length rest < length s" by (simp add: marker_text_def)
    then have "P rest" using 1 by blast
    then show ?thesis using assms(2) g by blast
  next
    case False
    show ?thesis
    proof (cases s)
      case Nil then show ?thesis using assms(1) by simp
    next
      case (Cons c cs)
      then have "P cs" using 1 by simp
      then show ?thesis using assms(3) False Cons by blast
    qed
  qed
qed

lemma render_parse: "render (parse s) = s"
  by (induction s rule: marker_induct) (simp_all add: parse_hit parse_miss)

lemma scan_marker_Nil: "scan marker_rx i [] = []"
  by (subst scan.simps) (simp add: rx_exec_marker_Nil)

lemma scan_marker_hit:
  assumes "marker_id g"
  shows "scan marker_rx i (marker_text g @ rest) =
     \<lparr>index = i, whole = marker_text g, group1 = Some g\<rparr> #
     scan marker_rx (i + length (marker_text g)) rest"
proof -
  have "rx_exec marker_rx (marker_text g @ rest) = Some (marker_text g, Some g)"
    unfolding rx_exec_marker_Some using assms by blast
  moreover have "marker_text g \<noteq> []" by (simp add: marker_text_def)
  ultimately show ?thesis by (subst scan.simps) simp
qed

lemma scan_marker_miss:
  assumes "\<not> starts_marker (c # cs)"
  shows "scan marker_rx i (c # cs) = scan marker_rx (i + 1) cs"
proof -
  have "rx_exec marker_rx (c # cs) = None"
    using assms unfolding rx_exec_marker_None starts_marker_def .
  then show ?thesis by (subst scan.simps) simp
qed

lemma scan_parse: "scan marker_rx i s = ms_of i (parse s)"
  by (induction s arbitrary: i rule: marker_induct)
     (simp_all add: scan_marker_Nil scan_marker_hit scan_marker_miss parse_hit parse_miss)

lemma digit_char_is_digit: "d < 10 \<Longrightarrow> is_digit (digit_char d)"
proof -
  assume "d < 10"
  then have "d \<in> {0, 1, 2, 3, 4, 5, 6, 7, 8, 9}" by auto
  then show ?thesis by (auto simp: digit_char_def is_digit_def)
qed

lemma digits1_number_to_string: "digits1 (number_to_string n)"
proof (induction n rule: number_to_string.induct)
  case (1 n)
  show ?case
  proof (cases "n < 10")
    case True
    then show ?thesis
      by (subst number_to_string.simps) (simp add: digits1_def digit_char_is_digit)
  next
    case False
    then have "digits1 (number_to_string (n div 10))" using 1 by simp
    moreover have "is_digit (digit_char (n mod 10))" by (simp add: digit_char_is_digit)
    ultimately show ?thesis using False
      by (subst number_to_string.simps) (simp add: digits1_def)
  qed
qed

lemma marker_id_number_to_string: "marker_id (number_to_string n)"
  using digits1_number_to_string marker_id_iff by blast

lemma replace_lit_marker_text: "replace_lit n = marker_text (number_to_string n)"
  by (simp add: replace_lit_def marker_text_def)

lemma slice_prefix: "slice (q @ r) 0 (int (length q)) = q"
  by (simp add: slice_def Let_def)

lemma slice_from_suffix: "slice_from (q @ w @ r) (int (length q) + int (length w)) = r"
proof -
  have "nat (int (length q) + int (length w)) = length q + length w" by simp
  then show ?thesis
    by (simp add: slice_from_def slice_def Let_def)
qed

lemma loop_body_marker:
  "loop_body nodesMap
     \<lparr>tree = q @ w @ r, j = n, offset = int (length q) - int i, xpaths = xs\<rparr>
     \<lparr>index = i, whole = w, group1 = g\<rparr> =
   \<lparr>tree = (q @ replace_lit n) @ r, j = n + 1,
    offset = int (length (q @ replace_lit n)) - int (i + length w),
    xpaths = xs @ [nodesMap (prop_key g)]\<rparr>"
proof -
  have 1: "int i + (int (length q) - int i) = int (length q)" by simp
  have 2: "int i + int (length w) + (int (length q) - int i) = int (length q) + int (length w)"
    by simp
  show ?thesis
    unfolding loop_body_def Let_def
    by (simp only: loop_vars.simps match.simps 1 2 slice_prefix slice_from_suffix) simp
qed

lemma loop_on_segs:
  "foldl (loop_body nodesMap)
     \<lparr>tree = q @ render sg, j = n, offset = int (length q) - int i, xpaths = xs\<rparr>
     (ms_of i sg) =
   \<lparr>tree = q @ render (relabel n sg), j = n + length (ms_of i sg),
    offset = int (length (q @ render (relabel n sg))) - int (i + length (render sg)),
    xpaths = xs @ map (\<lambda>m. nodesMap (prop_key (group1 m))) (ms_of i sg)\<rparr>"
proof (induction sg arbitrary: q i n xs)
  case Nil
  show ?case by simp
next
  case (Cons x sg)
  show ?case
  proof (cases x)
    case (Text c)
    have "foldl (loop_body nodesMap)
       \<lparr>tree = (q @ [c]) @ render sg, j = n, offset = int (length (q @ [c])) - int (i + 1),
        xpaths = xs\<rparr> (ms_of (i + 1) sg) =
      \<lparr>tree = (q @ [c]) @ render (relabel n sg), j = n + length (ms_of (i + 1) sg),
       offset = int (length ((q @ [c]) @ render (relabel n sg))) - int (i + 1 + length (render sg)),
       xpaths = xs @ map (\<lambda>m. nodesMap (prop_key (group1 m))) (ms_of (i + 1) sg)\<rparr>"
      by (rule Cons.IH)
    then show ?thesis using Text by simp
  next
    case (Marker w g)
    have "foldl (loop_body nodesMap)
       \<lparr>tree = (q @ replace_lit n) @ render sg, j = n + 1,
        offset = int (length (q @ replace_lit n)) - int (i + length w),
        xpaths = xs @ [nodesMap (prop_key g)]\<rparr> (ms_of (i + length w) sg) =
      \<lparr>tree = (q @ replace_lit n) @ render (relabel (n + 1) sg),
       j = n + 1 + length (ms_of (i + length w) sg),
       offset = int (length ((q @ replace_lit n) @ render (relabel (n + 1) sg))) -
                int (i + length w + length (render sg)),
       xpaths = (xs @ [nodesMap (prop_key g)]) @
                map (\<lambda>m. nodesMap (prop_key (group1 m))) (ms_of (i + length w) sg)\<rparr>"
      by (rule Cons.IH)
    then show ?thesis using Marker
      by (simp add: loop_body_marker[of nodesMap q w "render sg", simplified])
  qed
qed

definition renum :: "nat \<Rightarrow> string \<Rightarrow> string" where
  "renum n s = render (relabel n (parse s))"

lemma renum_Nil [simp]: "renum n [] = []"
  by (simp add: renum_def)

lemma renum_hit:
  "marker_id g \<Longrightarrow> renum n (marker_text g @ rest) = replace_lit n @ renum (n + 1) rest"
  by (simp add: renum_def parse_hit)

lemma renum_miss:
  "\<not> starts_marker (c # cs) \<Longrightarrow> renum n (c # cs) = c # renum n cs"
  by (simp add: renum_def parse_miss)

abbreviation not_open :: "char \<Rightarrow> bool" where
  "not_open \<equiv> (\<lambda>x. x \<noteq> CHR ''['')"

lemma starts_marker_local:
  assumes "takeWhile not_open u = takeWhile not_open v" and "starts_marker (c # u)"
  shows "starts_marker (c # v)"
proof -
  from assms(2) obtain g rest where g: "marker_id g" "c # u = marker_text g @ rest"
    unfolding starts_marker_def by blast
  let ?body = "g @ ''] ''"
  have c: "c = CHR ''[''" and u: "u = ?body @ rest"
    using g(2) by (simp_all add: marker_text_def)
  have body: "\<And>x. x \<in> set ?body \<Longrightarrow> not_open x"
    using marker_id_no_bracket(2)[OF g(1)] by auto
  have "takeWhile not_open u = ?body @ takeWhile not_open rest"
    unfolding u using body by (rule takeWhile_append2)
  then have "takeWhile not_open v = ?body @ takeWhile not_open rest"
    using assms(1) by simp
  then have "v = ?body @ (takeWhile not_open rest @ dropWhile not_open v)"
    by (metis append.assoc takeWhile_dropWhile_id)
  then have "c # v = marker_text g @ (takeWhile not_open rest @ dropWhile not_open v)"
    using c by (simp add: marker_text_def)
  then show ?thesis unfolding starts_marker_def using g(1) by blast
qed

lemma takeWhile_renum: "takeWhile not_open (renum n s) = takeWhile not_open s"
proof (induction s arbitrary: n rule: marker_induct)
  case Nil
  show ?case by simp
next
  case (hit g rest)
  show ?case
    unfolding renum_hit[OF hit(1)] by (simp add: replace_lit_def marker_text_def)
next
  case (miss c cs)
  show ?case
    by (simp add: renum_miss[OF miss(1)] miss(2))
qed

lemma parse_renum: "parse (renum n s) = relabel n (parse s)"
proof (induction s arbitrary: n rule: marker_induct)
  case Nil
  show ?case by simp
next
  case (hit g rest)
  have "parse (renum n (marker_text g @ rest)) =
        parse (marker_text (number_to_string n) @ renum (n + 1) rest)"
    by (simp add: renum_hit[OF hit(1)] replace_lit_marker_text)
  also have "\<dots> = Marker (marker_text (number_to_string n)) (Some (number_to_string n)) #
                    parse (renum (n + 1) rest)"
    by (rule parse_hit[OF marker_id_number_to_string])
  finally show ?case
    by (simp add: parse_hit[OF hit(1)] hit(2) replace_lit_marker_text)
next
  case (miss c cs)
  have "\<not> starts_marker (c # renum n cs)"
    using starts_marker_local[of "renum n cs" cs c] takeWhile_renum[of n cs] miss(1) by blast
  then have "parse (c # renum n cs) = Text c # parse (renum n cs)"
    by (rule parse_miss)
  then show ?case
    by (simp add: renum_miss[OF miss(1)] parse_miss[OF miss(1)] miss(2))
qed

lemma relabel_relabel: "relabel n (relabel n sg) = relabel n sg"
  by (induction sg arbitrary: n) (auto split: seg.splits)

lemma renum_renum: "renum n (renum n s) = renum n s"
  by (simp add: renum_def[of n "renum n s"] parse_renum relabel_relabel) (simp add: renum_def)

lemma length_ms_of_relabel: "length (ms_of i' (relabel n sg)) = length (ms_of i sg)"
  by (induction sg arbitrary: i i' n) (auto split: seg.splits)

fun shifted :: "nat \<Rightarrow> int \<Rightarrow> match list \<Rightarrow> match list" where
  "shifted n d [] = []"
| "shifted n d (m # ms) =
     \<lparr>index = nat (int (index m) + d), whole = replace_lit n,
      group1 = Some (number_to_string n)\<rparr> #
     shifted (n + 1) (d + (int (length (replace_lit n)) - int (length (whole m)))) ms"

lemma ms_of_relabel:
  "ms_of i' (relabel n sg) = shifted n (int i' - int i) (ms_of i sg)"
proof (induction sg arbitrary: i i' n)
  case Nil
  show ?case by simp
next
  case (Cons x sg)
  show ?case
  proof (cases x)
    case (Text c)
    show ?thesis using Cons[of "i' + 1" n "i + 1"] Text by simp
  next
    case (Marker w g)
    have e: "int (i' + length (replace_lit n)) - int (i + length w) =
          int i' - int i + (int (length (replace_lit n)) - int (length w))" by simp
    note ih = Cons[of "i' + length (replace_lit n)" "n + 1" "i + length w", unfolded e]
    show ?thesis
      using ih Marker by simp
  qed
qed

lemma tree_renumber: "accessibilityTree (renumber nodesMap s) = renum 0 s"
  using loop_on_segs[of nodesMap "[]" "parse s" 0 0 "[]"]
  by (simp add: renumber_def matchAll_def scan_parse render_parse renum_def Let_def)

lemma xpaths_renumber:
  "json_xpaths (renumber nodesMap s) = map (\<lambda>m. nodesMap (prop_key (group1 m))) (matchAll s)"
  using loop_on_segs[of nodesMap "[]" "parse s" 0 0 "[]"]
  by (simp add: renumber_def matchAll_def scan_parse render_parse Let_def)

lemma matchAll_renum: "matchAll (renum 0 s) = shifted 0 0 (matchAll s)"
  using ms_of_relabel[of 0 0 "parse s" 0]
  by (simp add: matchAll_def scan_parse parse_renum)

section \<open>The matches of a tree\<close>

lemma marker_text_not_Nil: "marker_text g @ rest \<noteq> []"
  by (simp add: marker_text_def)

lemma marker_interior:
  assumes "marker_id g0" "0 < i" "i < length (marker_text g0)"
  shows "drop i (marker_text g0 @ r0) \<noteq> marker_text g @ r"
proof
  assume eq: "drop i (marker_text g0 @ r0) = marker_text g @ r"
  have "i < length (marker_text g0 @ r0)" using assms(3) by simp
  then have "hd (drop i (marker_text g0 @ r0)) = (marker_text g0 @ r0) ! i"
    by (rule hd_drop_conv_nth)
  also have "\<dots> = marker_text g0 ! i" using assms(3) by (simp add: nth_append)
  also have "\<dots> = (g0 @ ''] '') ! (i - 1)"
    using assms(2) by (cases i) (simp_all add: marker_text_def)
  finally have "hd (drop i (marker_text g0 @ r0)) \<in> set (g0 @ ''] '')"
    using assms(2,3) by (simp add: marker_text_def del: set_append)
  then have "hd (drop i (marker_text g0 @ r0)) \<noteq> CHR ''[''"
    using marker_id_no_bracket(2)[OF assms(1)] by auto
  then show False unfolding eq by (simp add: marker_text_def)
qed

lemma scan_marker_set:
  "m \<in> set (scan marker_rx k t) \<longleftrightarrow>
     (\<exists>i g rest. m = \<lparr>index = k + i, whole = marker_text g, group1 = Some g\<rparr> \<and>
        marker_id g \<and> drop i t = marker_text g @ rest)"
proof (induction t arbitrary: k rule: marker_induct)
  case Nil
  show ?case using marker_text_not_Nil by (auto simp: scan_marker_Nil)
next
  case (hit g0 r0)
  let ?L = "length (marker_text g0)"
  let ?m0 = "\<lparr>index = k, whole = marker_text g0, group1 = Some g0\<rparr>"
  have scan: "set (scan marker_rx k (marker_text g0 @ r0)) =
      insert ?m0 (set (scan marker_rx (k + ?L) r0))"
    by (simp add: scan_marker_hit[OF hit(1)])
  show ?case
  proof
    assume "m \<in> set (scan marker_rx k (marker_text g0 @ r0))"
    then consider "m = ?m0" | "m \<in> set (scan marker_rx (k + ?L) r0)"
      unfolding scan by blast
    then show "\<exists>i g rest. m = \<lparr>index = k + i, whole = marker_text g, group1 = Some g\<rparr> \<and>
        marker_id g \<and> drop i (marker_text g0 @ r0) = marker_text g @ rest"
    proof cases
      case 1
      have "m = \<lparr>index = k + 0, whole = marker_text g0, group1 = Some g0\<rparr> \<and>
        marker_id g0 \<and> drop 0 (marker_text g0 @ r0) = marker_text g0 @ r0"
        using 1 hit(1) by simp
      then show ?thesis by blast
    next
      case 2
      then obtain i g rest where
        i: "m = \<lparr>index = k + ?L + i, whole = marker_text g, group1 = Some g\<rparr>"
           "marker_id g" "drop i r0 = marker_text g @ rest"
        unfolding hit(2) by blast
      have "m = \<lparr>index = k + (?L + i), whole = marker_text g, group1 = Some g\<rparr> \<and>
        marker_id g \<and> drop (?L + i) (marker_text g0 @ r0) = marker_text g @ rest"
        using i by (simp add: add.assoc)
      then show ?thesis by blast
    qed
  next
    assume "\<exists>i g rest. m = \<lparr>index = k + i, whole = marker_text g, group1 = Some g\<rparr> \<and>
        marker_id g \<and> drop i (marker_text g0 @ r0) = marker_text g @ rest"
    then obtain i g rest where
      i: "m = \<lparr>index = k + i, whole = marker_text g, group1 = Some g\<rparr>"
         "marker_id g" "drop i (marker_text g0 @ r0) = marker_text g @ rest"
      by blast
    consider "i = 0" | "0 < i" "i < ?L" | "?L \<le> i" by linarith
    then show "m \<in> set (scan marker_rx k (marker_text g0 @ r0))"
    proof cases
      case 1
      then have "g0 = g \<and> r0 = rest"
        using marker_text_unique[OF hit(1) i(2), of r0 rest] i(3) by simp
      then show ?thesis unfolding scan using i(1) 1 by simp
    next
      case 2
      then show ?thesis using marker_interior[OF hit(1), of i r0 g rest] i(3) by blast
    next
      case 3
      then have "drop (i - ?L) r0 = marker_text g @ rest" using i(3) by simp
      moreover have "m = \<lparr>index = k + ?L + (i - ?L), whole = marker_text g, group1 = Some g\<rparr>"
        using i(1) 3 by simp
      ultimately have "m \<in> set (scan marker_rx (k + ?L) r0)"
        unfolding hit(2) using i(2) by blast
      then show ?thesis unfolding scan by blast
    qed
  qed
next
  case (miss c cs)
  have scan: "scan marker_rx k (c # cs) = scan marker_rx (k + 1) cs"
    by (rule scan_marker_miss[OF miss(1)])
  show ?case
  proof
    assume "m \<in> set (scan marker_rx k (c # cs))"
    then obtain i g rest where
      i: "m = \<lparr>index = k + 1 + i, whole = marker_text g, group1 = Some g\<rparr>"
         "marker_id g" "drop i cs = marker_text g @ rest"
      unfolding scan miss(2) by blast
    have "m = \<lparr>index = k + Suc i, whole = marker_text g, group1 = Some g\<rparr> \<and>
        marker_id g \<and> drop (Suc i) (c # cs) = marker_text g @ rest"
      using i by simp
    then show "\<exists>i g rest. m = \<lparr>index = k + i, whole = marker_text g, group1 = Some g\<rparr> \<and>
        marker_id g \<and> drop i (c # cs) = marker_text g @ rest" by blast
  next
    assume "\<exists>i g rest. m = \<lparr>index = k + i, whole = marker_text g, group1 = Some g\<rparr> \<and>
        marker_id g \<and> drop i (c # cs) = marker_text g @ rest"
    then obtain i g rest where
      i: "m = \<lparr>index = k + i, whole = marker_text g, group1 = Some g\<rparr>"
         "marker_id g" "drop i (c # cs) = marker_text g @ rest"
      by blast
    show "m \<in> set (scan marker_rx k (c # cs))"
    proof (cases i)
      case 0
      then have "starts_marker (c # cs)"
        unfolding starts_marker_def using i(2,3) by auto
      then show ?thesis using miss(1) by simp
    next
      case (Suc i')
      then have "drop i' cs = marker_text g @ rest" using i(3) by simp
      moreover have "m = \<lparr>index = k + 1 + i', whole = marker_text g, group1 = Some g\<rparr>"
        using i(1) Suc by simp
      ultimately show ?thesis unfolding scan miss(2) using i(2) by blast
    qed
  qed
qed

lemma matchAll_set:
  "set (matchAll s) =
     {\<lparr>index = i, whole = marker_text g, group1 = Some g\<rparr> | i g.
        marker_id g \<and> (\<exists>rest. drop i s = marker_text g @ rest)}"
  unfolding matchAll_def using scan_marker_set[of _ 0 s] by auto

lemma matchAll_empty_iff:
  "matchAll s = [] \<longleftrightarrow> (\<forall>i. \<not> starts_marker (drop i s))"
proof -
  have "matchAll s = [] \<longleftrightarrow> set (matchAll s) = {}" by simp
  also have "\<dots> \<longleftrightarrow> (\<forall>i. \<not> starts_marker (drop i s))"
    unfolding matchAll_set starts_marker_def by auto
  finally show ?thesis .
qed

lemma matchAll_nth_marker:
  assumes "k < length (matchAll s)"
  shows "\<exists>g. marker_id g \<and> group1 (matchAll s ! k) = Some g \<and>
           whole (matchAll s ! k) = marker_text g"
proof -
  have "matchAll s ! k \<in> set (matchAll s)" using assms by simp
  then show ?thesis unfolding matchAll_set by auto
qed

section \<open>Properties of the renumbering\<close>

lemma whole_shifted: "map whole (shifted n d ms) = map replace_lit [n..<n + length ms]"
proof (induction ms arbitrary: n d)
  case Nil
  show ?case by simp
next
  case (Cons m ms)
  have "[n..<n + length (m # ms)] = n # [n + 1..<n + 1 + length ms]"
    using upt_conv_Cons[of n "n + length (m # ms)"] by simp
  then show ?case using Cons[of "n + 1"] by simp
qed

lemma length_shifted: "length (shifted n d ms) = length ms"
  by (induction ms arbitrary: n d) simp_all

text \<open>
  Claim C1 (density). The matches of the output tree are the matches of the input tree,
  one for one and in the same order, the marker at place \<open>n\<close> rewritten to the literal
  \<open>[n] \<close> and moved by the lengths that the earlier replacements added or removed
  (\<open>shifted\<close>); so the markers of the output read \<open>[0] \<close>, \<open>[1] \<close>, ... up to the number
  of markers of the input, whatever the ids of the input were.
\<close>

theorem renumbering_is_dense:
  "matchAll (accessibilityTree (renumber nodesMap s)) = shifted 0 0 (matchAll s) \<and>
   map whole (matchAll (accessibilityTree (renumber nodesMap s))) =
     map replace_lit [0..<length (matchAll s)]"
proof -
  have 1: "matchAll (accessibilityTree (renumber nodesMap s)) = shifted 0 0 (matchAll s)"
    by (simp only: tree_renumber matchAll_renum)
  have "map whole (shifted 0 0 (matchAll s)) = map replace_lit [0..<0 + length (matchAll s)]"
    by (rule whole_shifted)
  then show ?thesis using 1 by simp
qed

text \<open>
  Claim C2 (locator alignment). The locator sequence has one entry for each marker, and
  the entry at place \<open>k\<close> is what the map gives for the id captured in the marker at
  place \<open>k\<close> of the input: its value when the id is a key, \<open>None\<close> (the
  \<open>undefined\<close> of the source) when it is not.
\<close>

theorem locators_aligned:
  "length (json_xpaths (renumber nodesMap s)) = length (matchAll s) \<and>
   (\<forall>k < length (matchAll s). \<exists>g.
      group1 (matchAll s ! k) = Some g \<and> whole (matchAll s ! k) = ''['' @ g @ ''] '' \<and>
      json_xpaths (renumber nodesMap s) ! k = nodesMap g)"
proof (intro conjI allI impI)
  show "length (json_xpaths (renumber nodesMap s)) = length (matchAll s)"
    by (simp add: xpaths_renumber)
next
  fix k assume k: "k < length (matchAll s)"
  then obtain g where g: "group1 (matchAll s ! k) = Some g" "whole (matchAll s ! k) = marker_text g"
    using matchAll_nth_marker by blast
  have "json_xpaths (renumber nodesMap s) ! k = nodesMap (prop_key (group1 (matchAll s ! k)))"
    using k by (simp add: xpaths_renumber)
  then have "json_xpaths (renumber nodesMap s) ! k = nodesMap g"
    using g(1) by (simp add: prop_key_def)
  then show "\<exists>g. group1 (matchAll s ! k) = Some g \<and> whole (matchAll s ! k) = ''['' @ g @ ''] '' \<and>
      json_xpaths (renumber nodesMap s) ! k = nodesMap g"
    using g by (auto simp: marker_text_def)
qed

lemma matchAll_apple_banana:
  "matchAll ''[5] apple [9-2] banana'' =
     [\<lparr>index = 0, whole = ''[5] '', group1 = Some ''5''\<rparr>,
      \<lparr>index = 10, whole = ''[9-2] '', group1 = Some ''9-2''\<rparr>]"
  by code_simp

theorem locators_aligned_witness:
  "(1::nat) < length (matchAll ''[5] apple [9-2] banana'') \<and>
   group1 (matchAll ''[5] apple [9-2] banana'' ! 1) = Some ''9-2'' \<and>
   json_xpaths (renumber [''5'' \<mapsto> ''loc-A''] ''[5] apple [9-2] banana'') ! 1 = None"
proof -
  let ?s = "''[5] apple [9-2] banana''"
  let ?mp = "[''5'' \<mapsto> ''loc-A'']"
  have len: "(1::nat) < length (matchAll ?s)" by (simp add: matchAll_apple_banana)
  have g1: "group1 (matchAll ?s ! 1) = Some ''9-2''" by (simp add: matchAll_apple_banana)
  have "\<forall>k < length (matchAll ?s). \<exists>g.
      group1 (matchAll ?s ! k) = Some g \<and> whole (matchAll ?s ! k) = ''['' @ g @ ''] '' \<and>
      json_xpaths (renumber ?mp ?s) ! k = ?mp g"
    by (rule conjunct2[OF locators_aligned[of ?mp ?s]])
  then have "1 < length (matchAll ?s) \<longrightarrow> (\<exists>g.
      group1 (matchAll ?s ! 1) = Some g \<and> whole (matchAll ?s ! 1) = ''['' @ g @ ''] '' \<and>
      json_xpaths (renumber ?mp ?s) ! 1 = ?mp g)"
    by (rule spec)
  then obtain g where g: "group1 (matchAll ?s ! 1) = Some g"
      "json_xpaths (renumber ?mp ?s) ! 1 = ?mp g"
    using len by blast
  have "g = ''9-2''" using g(1) unfolding g1 by simp
  then have "json_xpaths (renumber ?mp ?s) ! 1 = None" using g(2) by simp
  then show ?thesis using len g1 by (intro conjI)
qed

text \<open>
  Claim C6 (identity without markers). When no position of the tree starts a marker, the
  tree comes back as it was, with an empty locator sequence; the empty tree is such a
  tree. The result is a value like any other, not an error.
\<close>

theorem identity_without_markers:
  "((\<forall>i. \<not> starts_marker (drop i s)) \<longrightarrow>
      renumber nodesMap s = \<lparr>accessibilityTree = s, json_xpaths = []\<rparr>) \<and>
   renumber nodesMap [] = \<lparr>accessibilityTree = [], json_xpaths = []\<rparr>"
proof -
  have "matchAll [] = []" by (simp add: matchAll_def scan_marker_Nil)
  then show ?thesis
    by (auto simp: renumber_def matchAll_empty_iff[symmetric])
qed

lemma matchAll_near_markers: "matchAll ''ab [x] [12]c [-3] [4-] '' = []"
  by code_simp

theorem identity_without_markers_witness:
  "(\<forall>i. \<not> starts_marker (drop i ''ab [x] [12]c [-3] [4-] '')) \<and>
   renumber (Map.empty :: string \<rightharpoonup> string) ''ab [x] [12]c [-3] [4-] '' =
     \<lparr>accessibilityTree = ''ab [x] [12]c [-3] [4-] '', json_xpaths = []\<rparr>"
proof -
  let ?s = "''ab [x] [12]c [-3] [4-] ''"
  have h: "\<forall>i. \<not> starts_marker (drop i ?s)"
    by (rule iffD1[OF matchAll_empty_iff matchAll_near_markers])
  have "(\<forall>i. \<not> starts_marker (drop i ?s)) \<longrightarrow>
      renumber (Map.empty :: string \<rightharpoonup> string) ?s = \<lparr>accessibilityTree = ?s, json_xpaths = []\<rparr>"
    by (rule conjunct1[OF identity_without_markers])
  then have "renumber (Map.empty :: string \<rightharpoonup> string) ?s =
      \<lparr>accessibilityTree = ?s, json_xpaths = []\<rparr>"
    using h by (rule mp)
  then show ?thesis using h by (intro conjI)
qed

text \<open>
  Claim C8 (exactness of the pattern). The matches found in a tree are exactly the
  places where the tree reads: opening bracket, an id made of one or more digits or of
  one or more digits, a hyphen and one or more digits, closing bracket, space. The match
  is that text and its capture is the id. Nothing else is a match: not a bracket around
  anything else, and not a bracketed id without the space after it.
\<close>

theorem marker_pattern_exact:
  "set (matchAll s) =
     {\<lparr>index = i, whole = ''['' @ g @ ''] '', group1 = Some g\<rparr> | i g.
        (digits1 g \<or> (\<exists>d e. digits1 d \<and> digits1 e \<and> g = d @ ''-'' @ e)) \<and>
        (\<exists>rest. drop i s = ''['' @ g @ ''] '' @ rest)}"
  unfolding matchAll_set marker_id_iff by (simp add: marker_text_def)

text \<open>
  Claim C9 (idempotence of the structure). Renumbering the output tree again, with any
  map, gives the same tree and a locator sequence of the same length, the number of
  markers of the input. The locators themselves depend on the second map.
\<close>

theorem structural_idempotence:
  "accessibilityTree (renumber m2 (accessibilityTree (renumber m1 s))) =
     accessibilityTree (renumber m1 s) \<and>
   length (json_xpaths (renumber m2 (accessibilityTree (renumber m1 s)))) =
     length (json_xpaths (renumber m1 s)) \<and>
   length (json_xpaths (renumber m1 s)) = length (matchAll s)"
proof -
  have "matchAll (renum 0 s) = shifted 0 0 (matchAll s)" by (rule matchAll_renum)
  then have "length (matchAll (renum 0 s)) = length (matchAll s)"
    by (simp add: length_shifted)
  then show ?thesis
    by (simp add: tree_renumber renum_renum xpaths_renumber)
qed

section \<open>Text outside the markers, and bounds\<close>

text \<open>
  The text outside the matches of a string, piece by piece: before the first match,
  between two matches, after the last one (\<open>outside\<close>), read off the string at the
  positions of its match objects; and a string put together from such pieces and the
  texts to stand between them (\<open>weave\<close>).
\<close>

fun pieces :: "string \<Rightarrow> nat \<Rightarrow> match list \<Rightarrow> string list" where
  "pieces s pos [] = [drop pos s]"
| "pieces s pos (m # ms) =
     take (index m - pos) (drop pos s) # pieces s (index m + length (whole m)) ms"

definition outside :: "string \<Rightarrow> string list" where
  "outside s = pieces s 0 (matchAll s)"

fun weave :: "string list \<Rightarrow> string list \<Rightarrow> string" where
  "weave (g # gs) (w # ws) = g @ w @ weave gs ws"
| "weave gs [] = concat gs"
| "weave [] ws = concat ws"

text \<open>The same pieces, read off the segments.\<close>

fun onto :: "string \<Rightarrow> string list \<Rightarrow> string list" where
  "onto t [] = [t]"
| "onto t (x # xs) = (t @ x) # xs"

primrec texts_of :: "seg list \<Rightarrow> string list" where
  "texts_of [] = [[]]"
| "texts_of (x # sg) =
     (case x of Text c \<Rightarrow> onto [c] (texts_of sg) | Marker w g \<Rightarrow> [] # texts_of sg)"

text \<open>
  The loop run with a check at each iteration: the two positions handed to \<open>slice\<close>,
  \<open>match.index + offset\<close> and \<open>match.index + match[0].length + offset\<close>, lie in the
  current value of \<open>tree\<close>.
\<close>

fun in_bounds :: "(string \<rightharpoonup> 'v) \<Rightarrow> 'v loop_vars \<Rightarrow> match list \<Rightarrow> bool" where
  "in_bounds nodesMap st [] = True"
| "in_bounds nodesMap st (m # ms) =
     (0 \<le> int (index m) + offset st \<and>
      int (index m) + int (length (whole m)) + offset st \<le> int (length (tree st)) \<and>
      in_bounds nodesMap (loop_body nodesMap st m) ms)"

lemma texts_of_not_Nil: "texts_of sg \<noteq> []"
  by (induction sg) (auto split: seg.splits elim: onto.elims)

lemma onto_Nil: "xs \<noteq> [] \<Longrightarrow> onto [] xs = xs"
  by (cases xs) simp_all

lemma onto_onto: "xs \<noteq> [] \<Longrightarrow> onto t (onto u xs) = onto (t @ u) xs"
  by (cases xs) simp_all

lemma pieces_segs:
  "pieces (p @ t @ render sg) (length p) (ms_of (length p + length t) sg) =
     onto t (texts_of sg)"
proof (induction sg arbitrary: p t)
  case Nil
  show ?case by simp
next
  case (Cons x sg)
  show ?case
  proof (cases x)
    case (Text c)
    have "pieces (p @ (t @ [c]) @ render sg) (length p) (ms_of (length p + length (t @ [c])) sg) =
          onto (t @ [c]) (texts_of sg)"
      by (rule Cons.IH)
    then show ?thesis using Text by (simp add: onto_onto texts_of_not_Nil add.assoc)
  next
    case (Marker w g)
    have "pieces ((p @ t @ w) @ [] @ render sg) (length (p @ t @ w))
            (ms_of (length (p @ t @ w) + length ([] :: string)) sg) =
          onto [] (texts_of sg)"
      by (rule Cons.IH)
    then show ?thesis using Marker by (simp add: onto_Nil texts_of_not_Nil add.assoc)
  qed
qed

lemma outside_parse: "outside s = texts_of (parse s)"
  using pieces_segs[of "[]" "[]" "parse s"]
  by (simp add: outside_def matchAll_def scan_parse render_parse onto_Nil texts_of_not_Nil)

lemma texts_of_relabel: "texts_of (relabel n sg) = texts_of sg"
  by (induction sg arbitrary: n) (auto split: seg.splits)

lemma weave_segs:
  "weave (onto t (texts_of sg)) (map whole (ms_of i sg)) = t @ render sg"
proof (induction sg arbitrary: t i)
  case Nil
  show ?case by simp
next
  case (Cons x sg)
  show ?case
  proof (cases x)
    case (Text c)
    show ?thesis using Cons[of "t @ [c]" "i + 1"] Text
      by (simp add: onto_onto texts_of_not_Nil)
  next
    case (Marker w g)
    show ?thesis using Cons[of "[]" "i + length w"] Marker
      by (simp add: onto_Nil texts_of_not_Nil)
  qed
qed

lemma weave_parse: "weave (texts_of sg) (map whole (ms_of i sg)) = render sg"
  using weave_segs[of "[]" sg i] by (simp add: onto_Nil texts_of_not_Nil)

lemma in_bounds_segs:
  "in_bounds nodesMap
     \<lparr>tree = q @ render sg, j = n, offset = int (length q) - int i, xpaths = xs\<rparr>
     (ms_of i sg)"
proof (induction sg arbitrary: q i n xs)
  case Nil
  show ?case by simp
next
  case (Cons x sg)
  show ?case
  proof (cases x)
    case (Text c)
    have "in_bounds nodesMap
       \<lparr>tree = (q @ [c]) @ render sg, j = n, offset = int (length (q @ [c])) - int (i + 1),
        xpaths = xs\<rparr> (ms_of (i + 1) sg)"
      by (rule Cons.IH)
    then show ?thesis using Text by simp
  next
    case (Marker w g)
    have "in_bounds nodesMap
       \<lparr>tree = (q @ replace_lit n) @ render sg, j = n + 1,
        offset = int (length (q @ replace_lit n)) - int (i + length w),
        xpaths = xs @ [nodesMap (prop_key g)]\<rparr> (ms_of (i + length w) sg)"
      by (rule Cons.IH)
    then show ?thesis using Marker
      by (simp add: loop_body_marker[of nodesMap q w "render sg", simplified])
  qed
qed

lemma scan_marker_length: "4 * length (scan marker_rx i s) \<le> length s"
proof (induction s arbitrary: i rule: marker_induct)
  case Nil
  show ?case by (simp add: scan_marker_Nil)
next
  case (hit g rest)
  have "g \<noteq> []" using hit(1) by (rule marker_id_nonempty)
  then have "4 \<le> length (marker_text g)" by (cases g) (simp_all add: marker_text_def)
  then show ?case using hit(2)[of "i + length (marker_text g)"]
    by (simp add: scan_marker_hit[OF hit(1)])
next
  case (miss c cs)
  show ?case using miss(2)[of "i + 1"] by (simp add: scan_marker_miss[OF miss(1)])
qed

text \<open>
  Claim C3 (text outside the markers). The pieces of text outside the markers of the
  output are the pieces outside the markers of the input, one for one and character for
  character. The input is these pieces with its own markers between them, and the output
  is the same pieces with \<open>[0] \<close>, \<open>[1] \<close>, ... between them: a replacement that is
  longer or shorter than the marker it replaces moves the text after it and changes none
  of it.
\<close>

theorem text_outside_markers_preserved:
  "outside (accessibilityTree (renumber nodesMap s)) = outside s \<and>
   s = weave (outside s) (map whole (matchAll s)) \<and>
   accessibilityTree (renumber nodesMap s) =
     weave (outside s) (map replace_lit [0..<length (matchAll s)])"
proof (intro conjI)
  show "outside (accessibilityTree (renumber nodesMap s)) = outside s"
    by (simp add: tree_renumber outside_parse parse_renum texts_of_relabel)
  show "s = weave (outside s) (map whole (matchAll s))"
    using weave_parse[of "parse s" 0]
    by (simp add: outside_parse matchAll_def scan_parse render_parse)
  have "renum 0 s = weave (texts_of (relabel 0 (parse s))) (map whole (ms_of 0 (relabel 0 (parse s))))"
    unfolding weave_parse by (simp add: renum_def)
  also have "\<dots> = weave (outside s) (map whole (shifted 0 0 (matchAll s)))"
    using ms_of_relabel[of 0 0 "parse s" 0]
    by (simp add: texts_of_relabel outside_parse matchAll_def scan_parse)
  also have "\<dots> = weave (outside s) (map replace_lit [0..<length (matchAll s)])"
    using whole_shifted[of 0 0 "matchAll s"] by simp
  finally show "accessibilityTree (renumber nodesMap s) =
     weave (outside s) (map replace_lit [0..<length (matchAll s)])"
    by (simp add: tree_renumber)
qed

lemma outside_varied_lengths:
  "outside ''a[3] b [42] c[7-15]  d'' = [''a'', ''b '', ''c'', '' d'']"
  by code_simp

lemma renumber_varied_lengths:
  "accessibilityTree (renumber (Map.empty :: string \<rightharpoonup> string) ''a[3] b [42] c[7-15]  d'') =
     ''a[0] b [1] c[2]  d''"
  by code_simp

theorem text_outside_markers_preserved_witness:
  "outside (accessibilityTree
      (renumber (Map.empty :: string \<rightharpoonup> string) ''a[3] b [42] c[7-15]  d'')) =
     [''a'', ''b '', ''c'', '' d'']"
  using conjunct1[OF text_outside_markers_preserved[of "Map.empty :: string \<rightharpoonup> string"
        "''a[3] b [42] c[7-15]  d''"]]
  by (simp only: outside_varied_lengths)

text \<open>
  Claim C10 (totality). For every tree and every map the loop runs to its end: the
  matches are finitely many (at most a quarter of the length of the tree, since a marker
  has four characters or more), at every iteration both slice positions lie within the
  current tree, and a tree and a locator sequence with one entry for each marker come
  out. A map without the ids, here the empty map, gives absent entries and nothing else.
  The termination of the matcher and of the scan is part of their definitions.
\<close>

theorem renumbering_total_in_bounds:
  "in_bounds nodesMap \<lparr>tree = s, j = 0, offset = 0, xpaths = []\<rparr> (matchAll s) \<and>
   4 * length (matchAll s) \<le> length s \<and>
   (\<exists>t xs. renumber nodesMap s = \<lparr>accessibilityTree = t, json_xpaths = xs\<rparr> \<and>
      length xs = length (matchAll s)) \<and>
   json_xpaths (renumber (Map.empty :: string \<rightharpoonup> 'v) s) = replicate (length (matchAll s)) None"
proof (intro conjI)
  show "in_bounds nodesMap \<lparr>tree = s, j = 0, offset = 0, xpaths = []\<rparr> (matchAll s)"
    using in_bounds_segs[of nodesMap "[]" "parse s" 0 0 "[]"]
    by (simp add: matchAll_def scan_parse render_parse)
  show "4 * length (matchAll s) \<le> length s"
    unfolding matchAll_def by (rule scan_marker_length)
  show "\<exists>t xs. renumber nodesMap s = \<lparr>accessibilityTree = t, json_xpaths = xs\<rparr> \<and>
      length xs = length (matchAll s)"
  proof (intro exI conjI)
    show "renumber nodesMap s =
        \<lparr>accessibilityTree = accessibilityTree (renumber nodesMap s),
         json_xpaths = json_xpaths (renumber nodesMap s)\<rparr>"
      by simp
    show "length (json_xpaths (renumber nodesMap s)) = length (matchAll s)"
      by (simp add: xpaths_renumber)
  qed
  show "json_xpaths (renumber (Map.empty :: string \<rightharpoonup> 'v) s) = replicate (length (matchAll s)) None"
    by (simp add: xpaths_renumber map_replicate_const)
qed

section \<open>Fetching the tree and the locator map\<close>

text \<open>
  \<open>getAccessibilityTree\<close> and \<open>getNodesMap\<close> each drive an instance of the browser
  automation library, which is not part of this repository. What an instance does in a
  run is a parameter of the model: whether \<open>init\<close> throws; the content of the second
  message that \<open>observe\<close> hands to the language-model client, as a string, if it calls
  the client at all; what \<open>observe\<close> returns or throws when the client answers with
  given elements; and whether the \<open>k\<close>-th call of \<open>close\<close> throws. An exception is a
  value: one that the library throws, or the \<open>TypeError\<close> of a property read on
  \<open>undefined\<close>.

  An element of the client's answer has the fields \<open>elementId\<close>, \<open>description\<close>,
  \<open>method\<close> and \<open>arguments\<close>; the last three carry the prefix \<open>element_\<close> here, and
  \<open>description\<close> and \<open>selector\<close> are the two fields that the source reads from a result
  of \<open>observe\<close>.
\<close>

datatype error = LibraryError string | TypeError

record element =
  elementId :: string
  element_description :: string
  element_method :: string
  element_arguments :: "string list"

record 'v observed =
  description :: string
  selector :: 'v

record 'v stagehand =
  init :: "error option"
  llm_prompt :: "string option"
  observe :: "element list \<Rightarrow> error + 'v observed list"
  close :: "nat \<Rightarrow> error option"

text \<open>
  The client that \<open>getNodesMap\<close> installs answers with one element for each match
  of the tree whose id contains a hyphen (\<open>match[1].includes('-')\<close>); the usage
  counters of the answer are constants and are left out. The capture of a match of this
  pattern is never \<open>undefined\<close> (lemma \<open>matchAll_nth_marker\<close>).
\<close>

definition createChatCompletion :: "string \<Rightarrow> element list" where
  "createChatCompletion tree0 =
     map (\<lambda>m. \<lparr>elementId = prop_key (group1 m),
               element_description = prop_key (group1 m),
               element_method = [], element_arguments = []\<rparr>)
       (filter (\<lambda>m. case group1 m of None \<Rightarrow> False | Some g \<Rightarrow> CHR ''-'' \<in> set g)
          (matchAll tree0))"

text \<open>
  \<open>results.reduce\<close> on an empty object: a later result with the same description
  wins. A selector is a string, and the assignment of a string to the key \<open>__proto__\<close>
  of an object creates no property and leaves the object as it is.
\<close>

definition reduce_results :: "'v observed list \<Rightarrow> (string \<rightharpoonup> 'v)" where
  "reduce_results results =
     foldl (\<lambda>acc result.
              if description result = ''__proto__'' then acc
              else acc(description result \<mapsto> selector result))
       Map.empty results"

text \<open>
  \<open>getNodesMap\<close>: \<open>init\<close> is outside the \<open>try\<close>. Inside it, an exception of
  \<open>observe\<close> or of the first \<open>close\<close> is caught by the empty \<open>catch\<close>, and the function
  then returns the empty object; the \<open>finally\<close> block calls \<open>close\<close> once more, and an
  exception there replaces any result.
\<close>

definition getNodesMap :: "'v stagehand \<Rightarrow> string \<Rightarrow> error + (string \<rightharpoonup> 'v)" where
  "getNodesMap sh tree0 =
     (case init sh of
        Some e \<Rightarrow> Inl e
      | None \<Rightarrow>
          (case observe sh (createChatCompletion tree0) of
             Inl e \<Rightarrow> (case close sh 0 of Some e' \<Rightarrow> Inl e' | None \<Rightarrow> Inr Map.empty)
           | Inr results \<Rightarrow>
               (case close sh 0 of
                  Some e \<Rightarrow> (case close sh 1 of Some e' \<Rightarrow> Inl e' | None \<Rightarrow> Inr Map.empty)
                | None \<Rightarrow>
                    (case close sh 1 of
                       Some e' \<Rightarrow> Inl e'
                     | None \<Rightarrow> Inr (reduce_results results)))))"

text \<open>
  \<open>trim\<close> and \<open>split\<close> of strings. The white space of \<open>trim\<close> is the white space
  among the code units below 256.
\<close>

definition is_space :: "char \<Rightarrow> bool" where
  "is_space c \<longleftrightarrow> c \<in> set [CHR 0x09, CHR 0x0A, CHR 0x0B, CHR 0x0C, CHR 0x0D, CHR 0x20, CHR 0xA0]"

definition trim :: "string \<Rightarrow> string" where
  "trim s = rev (dropWhile is_space (rev (dropWhile is_space s)))"

function split_from :: "string \<Rightarrow> string \<Rightarrow> string \<Rightarrow> string list" where
  "split_from sep acc s =
     (if s = [] then [acc]
      else if sep \<noteq> [] \<and> take (length sep) s = sep
        then acc # split_from sep [] (drop (length sep) s)
      else split_from sep (acc @ [hd s]) (tl s))"
  by pat_completeness auto
termination
  by (relation "measure (\<lambda>(sep, acc, s). length s)") auto

declare split_from.simps [simp del]

definition split :: "string \<Rightarrow> string \<Rightarrow> string list" where
  "split s sep = split_from sep [] s"

text \<open>
  \<open>getAccessibilityTree\<close>: the client it installs stores the prompt and throws, and
  \<open>observe\<close> sits in a \<open>try\<close> with an empty \<open>catch\<close>, so nothing that \<open>observe\<close> throws
  leaves the function; the tree is the text after the first \<open>Accessibility Tree:\<close>
  line of the prompt, trimmed.
\<close>

definition getAccessibilityTree :: "'v stagehand \<Rightarrow> error + string" where
  "getAccessibilityTree sh =
     (case init sh of
        Some e \<Rightarrow> Inl e
      | None \<Rightarrow>
          (case close sh 0 of
             Some e \<Rightarrow> Inl e
           | None \<Rightarrow>
               (case llm_prompt sh of
                  None \<Rightarrow> Inl TypeError
                | Some prompt \<Rightarrow>
                    (case split prompt (''Accessibility Tree: '' @ [CHR 0x0A]) of
                       _ # x # _ \<Rightarrow> Inr (trim x)
                     | _ \<Rightarrow> Inl TypeError))))"

text \<open>
  One iteration of the loop over the input items in \<open>CdpTools.execute\<close>, which has no
  \<open>try\<close>, and the loop; an item is given by the two library instances that its URL reaches.
\<close>

definition execute_item :: "'v stagehand \<Rightarrow> 'v stagehand \<Rightarrow> error + 'v item_json" where
  "execute_item sh1 sh2 =
     (case getAccessibilityTree sh1 of
        Inl e \<Rightarrow> Inl e
      | Inr tree0 \<Rightarrow>
          (case getNodesMap sh2 tree0 of
             Inl e \<Rightarrow> Inl e
           | Inr nodesMap \<Rightarrow> Inr (renumber nodesMap tree0)))"

primrec execute_loop ::
  "('v stagehand \<times> 'v stagehand) list \<Rightarrow> 'v item_json list \<Rightarrow> error + 'v item_json list" where
  "execute_loop [] results = Inr results"
| "execute_loop (item # items) results =
     (case execute_item (fst item) (snd item) of
        Inl e \<Rightarrow> Inl e
      | Inr r \<Rightarrow> execute_loop items (results @ [r]))"

definition execute :: "('v stagehand \<times> 'v stagehand) list \<Rightarrow> error + 'v item_json list list" where
  "execute items = (case execute_loop items [] of Inl e \<Rightarrow> Inl e | Inr results \<Rightarrow> Inr [results])"


text \<open>The ids in the markers of a tree, by their form.\<close>

definition hyphenated_ids :: "string \<Rightarrow> string set" where
  "hyphenated_ids tree0 =
     set (filter (\<lambda>g. CHR ''-'' \<in> set g) (map (\<lambda>m. prop_key (group1 m)) (matchAll tree0)))"

definition leaf_ids :: "string \<Rightarrow> string set" where
  "leaf_ids tree0 = set (filter digits1 (map (\<lambda>m. prop_key (group1 m)) (matchAll tree0)))"

text \<open>
  Three runs of the library: one that works and resolves every element it is handed,
  one whose \<open>observe\<close> fails, one whose \<open>init\<close> fails.
\<close>

definition session_ok :: "string stagehand" where
  "session_ok =
     \<lparr>init = None,
      llm_prompt = Some (''Accessibility Tree: '' @ [CHR 0x0A] @ ''[5] apple [9-2] banana''),
      observe = (\<lambda>es. Inr (map (\<lambda>e. \<lparr>description = element_description e,
                                           selector = ''xpath='' @ elementId e\<rparr>) es)),
      close = (\<lambda>k. None)\<rparr>"

definition session_observe_fails :: "string stagehand" where
  "session_observe_fails =
     session_ok\<lparr>observe := (\<lambda>es. Inl (LibraryError ''socket closed''))\<rparr>"

definition session_down :: "string stagehand" where
  "session_down = session_ok\<lparr>init := Some (LibraryError ''no browser'')\<rparr>"

lemma dom_foldl_results:
  "dom (foldl (\<lambda>acc result.
                 if description result = ''__proto__'' then acc
                 else acc(description result \<mapsto> selector result)) acc0 results) =
     dom acc0 \<union> (description ` set results - {''__proto__''})"
  (is "dom (foldl ?F acc0 results) = _")
proof (induction results arbitrary: acc0)
  case Nil
  show ?case by simp
next
  case (Cons r results)
  show ?case
  proof (cases "description r = ''__proto__''")
    case True
    have "foldl ?F acc0 (r # results) = foldl ?F acc0 results"
      using True by simp
    moreover have "dom (foldl ?F acc0 results) =
        dom acc0 \<union> (description ` set results - {''__proto__''})"
      by (rule Cons)
    moreover have "description ` set (r # results) - {''__proto__''} =
        description ` set results - {''__proto__''}"
      using True by auto
    ultimately show ?thesis by (simp only:)
  next
    case False
    have "foldl ?F acc0 (r # results) =
        foldl ?F (acc0(description r \<mapsto> selector r)) results"
      using False by simp
    moreover have "dom (foldl ?F (acc0(description r \<mapsto> selector r)) results) =
        dom (acc0(description r \<mapsto> selector r)) \<union>
        (description ` set results - {''__proto__''})"
      by (rule Cons)
    moreover have "dom (acc0(description r \<mapsto> selector r)) \<union>
        (description ` set results - {''__proto__''}) =
        dom acc0 \<union> (description ` set (r # results) - {''__proto__''})"
      using False by auto
    ultimately show ?thesis by (simp only:)
  qed
qed

lemma dom_reduce_results:
  "dom (reduce_results results) = description ` set results - {''__proto__''}"
  by (simp add: reduce_results_def dom_foldl_results)

lemma includes_hyphen_prop_key:
  "(case x of None \<Rightarrow> False | Some g \<Rightarrow> CHR ''-'' \<in> set g) = (CHR ''-'' \<in> set (prop_key x))"
  by (cases x) (simp_all add: prop_key_def)

lemma createChatCompletion_ids:
  "map elementId (createChatCompletion tree0) =
     filter (\<lambda>g. CHR ''-'' \<in> set g) (map (\<lambda>m. prop_key (group1 m)) (matchAll tree0))"
  by (simp add: createChatCompletion_def includes_hyphen_prop_key filter_map comp_def)

lemma createChatCompletion_descs:
  "map element_description (createChatCompletion tree0) =
     filter (\<lambda>g. CHR ''-'' \<in> set g) (map (\<lambda>m. prop_key (group1 m)) (matchAll tree0))"
  by (simp add: createChatCompletion_def includes_hyphen_prop_key filter_map comp_def)

lemma createChatCompletion_descriptions:
  "element_description ` set (createChatCompletion tree0) = hyphenated_ids tree0"
proof -
  have "element_description ` set (createChatCompletion tree0) =
        set (map element_description (createChatCompletion tree0))"
    by simp
  then show ?thesis unfolding createChatCompletion_descs hyphenated_ids_def .
qed

lemma digits1_no_hyphen: "digits1 g \<Longrightarrow> CHR ''-'' \<notin> set g"
  by (auto simp: digits1_def list_all_iff)

lemma proto_not_hyphenated: "''__proto__'' \<notin> hyphenated_ids tree0"
  by (auto simp: hyphenated_ids_def)

lemma hyphenated_leaf_disjoint: "hyphenated_ids tree0 \<inter> leaf_ids tree0 = {}"
  by (auto simp: hyphenated_ids_def leaf_ids_def dest: digits1_no_hyphen)

lemma getNodesMap_Inr_cases:
  assumes "getNodesMap sh tree0 = Inr nodesMap"
  shows "nodesMap = Map.empty \<or>
         (\<exists>results. observe sh (createChatCompletion tree0) = Inr results \<and>
            nodesMap = reduce_results results)"
  using assms by (auto simp: getNodesMap_def split: option.splits sum.splits)

section \<open>The keys of the locator map, and failures\<close>

lemma createChatCompletion_apple_banana:
  "createChatCompletion ''[5] apple [9-2] banana'' =
     [\<lparr>elementId = ''9-2'', element_description = ''9-2'', element_method = [], element_arguments = []\<rparr>]"
  by (simp add: createChatCompletion_def matchAll_apple_banana prop_key_def)

lemma getNodesMap_session_ok:
  "getNodesMap session_ok ''[5] apple [9-2] banana'' = Inr [''9-2'' \<mapsto> ''xpath=9-2'']"
  by (simp add: getNodesMap_def session_ok_def createChatCompletion_apple_banana
      reduce_results_def)

lemma hyphenated_ids_apple_banana: "hyphenated_ids ''[5] apple [9-2] banana'' = {''9-2''}"
  by (simp add: hyphenated_ids_def matchAll_apple_banana prop_key_def)

lemma leaf_ids_apple_banana: "leaf_ids ''[5] apple [9-2] banana'' = {''5''}"
  by (simp add: leaf_ids_def matchAll_apple_banana prop_key_def digits1_def is_digit_def)

lemma getAccessibilityTree_session_ok:
  "getAccessibilityTree session_ok = Inr ''[5] apple [9-2] banana''"
  by code_simp

text \<open>
  Claim C4 says that the keys of the locator map are the bare-integer ids of the tree.
  On the tree \<open>[5] apple [9-2] banana\<close>, with a library that resolves every element it
  is handed, the only key is the hyphenated id \<open>9-2\<close>, and the bare id \<open>5\<close> of the tree
  is not a key.
\<close>

theorem locator_map_keys_counterexample:
  "map_sum id dom (getNodesMap session_ok ''[5] apple [9-2] banana'') = Inr {''9-2''} \<and>
   leaf_ids ''[5] apple [9-2] banana'' = {''5''}"
  by (simp add: getNodesMap_session_ok leaf_ids_apple_banana)

text \<open>
  Claim C4, amended. The ids handed to the library are the ids of the markers that
  contain a hyphen, in the order of the tree. When the library answers only for elements
  it was handed, every key of the map is such an id and no bare-integer id of the tree is
  a key; when the library and both calls of \<open>close\<close> succeed and the library answers
  for each element, the keys are exactly the hyphenated ids of the tree.
\<close>

theorem locator_map_keys_hyphenated:
  "(getNodesMap sh tree0 = Inr nodesMap \<and>
    (\<forall>results. observe sh (createChatCompletion tree0) = Inr results \<longrightarrow>
       description ` set results \<subseteq> element_description ` set (createChatCompletion tree0))
    \<longrightarrow> dom nodesMap \<subseteq> hyphenated_ids tree0 \<and> dom nodesMap \<inter> leaf_ids tree0 = {}) \<and>
   (init sh = None \<and> close sh 0 = None \<and> close sh 1 = None \<and>
    observe sh (createChatCompletion tree0) = Inr results \<and>
    description ` set results = element_description ` set (createChatCompletion tree0)
    \<longrightarrow> (\<exists>m. getNodesMap sh tree0 = Inr m \<and> dom m = hyphenated_ids tree0)) \<and>
   map elementId (createChatCompletion tree0) =
     filter (\<lambda>g. CHR ''-'' \<in> set g) (map (\<lambda>m. prop_key (group1 m)) (matchAll tree0))"
proof (intro conjI impI)
  assume a: "getNodesMap sh tree0 = Inr nodesMap \<and>
    (\<forall>results. observe sh (createChatCompletion tree0) = Inr results \<longrightarrow>
       description ` set results \<subseteq> element_description ` set (createChatCompletion tree0))"
  from a getNodesMap_Inr_cases[of sh tree0 nodesMap]
  consider "nodesMap = Map.empty"
    | results where "observe sh (createChatCompletion tree0) = Inr results"
        "nodesMap = reduce_results results"
    by blast
  then show sub: "dom nodesMap \<subseteq> hyphenated_ids tree0"
  proof cases
    case 1
    then show ?thesis by simp
  next
    case 2
    then have "description ` set results \<subseteq> element_description ` set (createChatCompletion tree0)"
      using a by blast
    then have "description ` set results - {''__proto__''} \<subseteq> hyphenated_ids tree0"
      unfolding createChatCompletion_descriptions by blast
    then show ?thesis using 2(2)
      by (simp only: dom_reduce_results)
  qed
  show "dom nodesMap \<inter> leaf_ids tree0 = {}"
    using sub hyphenated_leaf_disjoint[of tree0] by blast
next
  assume b: "init sh = None \<and> close sh 0 = None \<and> close sh 1 = None \<and>
    observe sh (createChatCompletion tree0) = Inr results \<and>
    description ` set results = element_description ` set (createChatCompletion tree0)"
  then have "getNodesMap sh tree0 = Inr (reduce_results results)"
    by (simp add: getNodesMap_def)
  moreover have "dom (reduce_results results) = hyphenated_ids tree0"
  proof -
    have "description ` set results = hyphenated_ids tree0"
      using b unfolding createChatCompletion_descriptions by blast
    then have "description ` set results - {''__proto__''} = hyphenated_ids tree0"
      using proto_not_hyphenated[of tree0] by blast
    then show ?thesis by (simp only: dom_reduce_results)
  qed
  ultimately show "\<exists>m. getNodesMap sh tree0 = Inr m \<and> dom m = hyphenated_ids tree0"
    by blast
next
  show "map elementId (createChatCompletion tree0) =
     filter (\<lambda>g. CHR ''-'' \<in> set g) (map (\<lambda>m. prop_key (group1 m)) (matchAll tree0))"
    by (rule createChatCompletion_ids)
qed

theorem locator_map_keys_hyphenated_witness:
  "getNodesMap session_ok ''[5] apple [9-2] banana'' = Inr [''9-2'' \<mapsto> ''xpath=9-2''] \<and>
   dom [''9-2'' \<mapsto> ''xpath=9-2''] \<subseteq> hyphenated_ids ''[5] apple [9-2] banana'' \<and>
   dom [''9-2'' \<mapsto> ''xpath=9-2''] \<inter> leaf_ids ''[5] apple [9-2] banana'' = {} \<and>
   (\<exists>m. getNodesMap session_ok ''[5] apple [9-2] banana'' = Inr m \<and>
      dom m = hyphenated_ids ''[5] apple [9-2] banana'')"
proof -
  let ?s = "''[5] apple [9-2] banana''"
  let ?m = "[''9-2'' \<mapsto> ''xpath=9-2'']"
  let ?rs = "[\<lparr>description = ''9-2'', selector = ''xpath=9-2''\<rparr>]"
  note inst = locator_map_keys_hyphenated[where sh = session_ok and ?tree0.0 = ?s and nodesMap = ?m and results = ?rs]
  have obs: "observe session_ok (createChatCompletion ?s) = Inr ?rs"
    by (simp add: session_ok_def createChatCompletion_apple_banana)
  have h1: "getNodesMap session_ok ?s = Inr ?m \<and>
    (\<forall>results. observe session_ok (createChatCompletion ?s) = Inr results \<longrightarrow>
       description ` set results \<subseteq> element_description ` set (createChatCompletion ?s))"
    unfolding obs by (simp add: getNodesMap_session_ok createChatCompletion_apple_banana)
  have h2: "init session_ok = None \<and> close session_ok 0 = None \<and> close session_ok 1 = None \<and>
    observe session_ok (createChatCompletion ?s) = Inr ?rs \<and>
    description ` set ?rs = element_description ` set (createChatCompletion ?s)"
    unfolding obs by (simp add: session_ok_def createChatCompletion_apple_banana)
  have a: "dom ?m \<subseteq> hyphenated_ids ?s \<and> dom ?m \<inter> leaf_ids ?s = {}"
    using inst h1 by blast
  have b: "\<exists>m. getNodesMap session_ok ?s = Inr m \<and> dom m = hyphenated_ids ?s"
    using inst h2 by blast
  show ?thesis using a b getNodesMap_session_ok by blast
qed

text \<open>
  Claim C5 says that a failure of the locator-map fetch is reported to the caller and
  that the renumbering does not run then. When \<open>observe\<close> fails inside \<open>getNodesMap\<close>,
  the function returns the empty map, and the item comes out renumbered, with absent
  locators.
\<close>

theorem failure_propagation_counterexample:
  "observe session_observe_fails (createChatCompletion ''[5] apple [9-2] banana'') =
     Inl (LibraryError ''socket closed'') \<and>
   map_sum id dom (getNodesMap session_observe_fails ''[5] apple [9-2] banana'') = Inr {} \<and>
   execute_item session_ok session_observe_fails =
     Inr \<lparr>accessibilityTree = ''[0] apple [1] banana'', json_xpaths = [None, None]\<rparr>"
proof -
  have 1: "observe session_observe_fails (createChatCompletion ''[5] apple [9-2] banana'') =
     Inl (LibraryError ''socket closed'')"
    by (simp add: session_observe_fails_def)
  have 2: "getNodesMap session_observe_fails ''[5] apple [9-2] banana'' = Inr Map.empty"
    by (simp add: getNodesMap_def session_observe_fails_def session_ok_def)
  have 3: "renumber (Map.empty :: string \<rightharpoonup> string) ''[5] apple [9-2] banana'' =
     \<lparr>accessibilityTree = ''[0] apple [1] banana'', json_xpaths = [None, None]\<rparr>"
    unfolding renumber_def matchAll_apple_banana
    by (simp add: loop_body_def slice_def slice_from_def replace_lit_def prop_key_def
        digit_char_def number_to_string.simps)
  show ?thesis using 1 2 3
    by (simp add: execute_item_def getAccessibilityTree_session_ok)
qed

lemma execute_loop_failure:
  assumes "\<forall>p \<in> set before. \<exists>r. execute_item (fst p) (snd p) = Inr r"
    and "execute_item tsh msh = Inl e"
  shows "execute_loop (before @ (tsh, msh) # after) results = Inl e"
  using assms(1)
proof (induction before arbitrary: results)
  case Nil
  show ?case using assms(2) by simp
next
  case (Cons p before)
  then obtain r where "execute_item (fst p) (snd p) = Inr r" by auto
  moreover have "execute_loop (before @ (tsh, msh) # after) (results @ [r]) = Inl e"
    using Cons by simp
  ultimately show ?case by simp
qed

lemma execute_item_session_ok:
  "execute_item session_ok session_ok =
     Inr \<lparr>accessibilityTree = ''[0] apple [1] banana'', json_xpaths = [None, Some ''xpath=9-2'']\<rparr>"
proof -
  have "renumber [''9-2'' \<mapsto> ''xpath=9-2''] ''[5] apple [9-2] banana'' =
     \<lparr>accessibilityTree = ''[0] apple [1] banana'', json_xpaths = [None, Some ''xpath=9-2'']\<rparr>"
    unfolding renumber_def matchAll_apple_banana
    by (simp add: loop_body_def slice_def slice_from_def replace_lit_def prop_key_def
        digit_char_def number_to_string.simps)
  then show ?thesis
    by (simp add: execute_item_def getAccessibilityTree_session_ok getNodesMap_session_ok)
qed

text \<open>
  Claim C5, amended. An exception that leaves \<open>getAccessibilityTree\<close> or
  \<open>getNodesMap\<close> leaves \<open>execute\<close> unchanged, at whichever item it happens, and no
  result is returned, neither for that item nor for the items before it; a failure of
  \<open>init\<close> is such an exception in both functions. A failure of \<open>observe\<close> in
  \<open>getNodesMap\<close> followed by a \<open>close\<close> that succeeds is not: the function returns the
  empty map.
\<close>

theorem fetch_failures_reported:
  "(getAccessibilityTree tsh = Inl e \<longrightarrow> execute_item tsh msh = Inl e) \<and>
   (getAccessibilityTree tsh = Inr tree0 \<and> getNodesMap msh tree0 = Inl e \<longrightarrow>
      execute_item tsh msh = Inl e) \<and>
   ((\<forall>p \<in> set before. \<exists>r. execute_item (fst p) (snd p) = Inr r) \<and>
    execute_item tsh msh = Inl e \<longrightarrow> execute (before @ (tsh, msh) # after) = Inl e) \<and>
   (init tsh = Some e \<longrightarrow> getAccessibilityTree tsh = Inl e) \<and>
   (init msh = Some e \<longrightarrow> getNodesMap msh tree0 = Inl e) \<and>
   (init msh = None \<and> observe msh (createChatCompletion tree0) = Inl e \<and> close msh 0 = None \<longrightarrow>
      getNodesMap msh tree0 = Inr Map.empty)"
proof (intro conjI impI)
  assume "getAccessibilityTree tsh = Inl e"
  then show "execute_item tsh msh = Inl e" by (simp add: execute_item_def)
next
  assume "getAccessibilityTree tsh = Inr tree0 \<and> getNodesMap msh tree0 = Inl e"
  then show "execute_item tsh msh = Inl e" by (simp add: execute_item_def)
next
  assume "(\<forall>p \<in> set before. \<exists>r. execute_item (fst p) (snd p) = Inr r) \<and>
    execute_item tsh msh = Inl e"
  then have "execute_loop (before @ (tsh, msh) # after) [] = Inl e"
    using execute_loop_failure by blast
  then show "execute (before @ (tsh, msh) # after) = Inl e" by (simp add: execute_def)
next
  assume "init tsh = Some e"
  then show "getAccessibilityTree tsh = Inl e" by (simp add: getAccessibilityTree_def)
next
  assume "init msh = Some e"
  then show "getNodesMap msh tree0 = Inl e" by (simp add: getNodesMap_def)
next
  assume "init msh = None \<and> observe msh (createChatCompletion tree0) = Inl e \<and> close msh 0 = None"
  then show "getNodesMap msh tree0 = Inr Map.empty" by (simp add: getNodesMap_def)
qed

theorem fetch_failures_reported_witness:
  "init session_down = Some (LibraryError ''no browser'') \<and>
   getAccessibilityTree session_down = Inl (LibraryError ''no browser'') \<and>
   execute_item session_down session_ok = Inl (LibraryError ''no browser'') \<and>
   execute [(session_ok, session_ok), (session_down, session_ok), (session_ok, session_ok)] =
     Inl (LibraryError ''no browser'') \<and>
   getAccessibilityTree session_ok = Inr ''[5] apple [9-2] banana'' \<and>
   getNodesMap session_down ''[5] apple [9-2] banana'' = Inl (LibraryError ''no browser'') \<and>
   execute_item session_ok session_down = Inl (LibraryError ''no browser'') \<and>
   init session_observe_fails = None \<and> close session_observe_fails 0 = None \<and>
   map_sum id dom (getNodesMap session_observe_fails ''[5] apple [9-2] banana'') = Inr {}"
proof -
  let ?e = "LibraryError ''no browser''"
  let ?s = "''[5] apple [9-2] banana''"
  have i: "init session_down = Some ?e" by (simp add: session_down_def)
  note t1 = fetch_failures_reported[where tsh = session_down and msh = session_ok and e = ?e
      and ?tree0.0 = ?s and before = "[(session_ok, session_ok)]"
      and after = "[(session_ok, session_ok)]"]
  note t2 = fetch_failures_reported[where tsh = session_ok and msh = session_down and e = ?e
      and ?tree0.0 = ?s and before = "[]" and after = "[]"]
  note t3 = fetch_failures_reported[where tsh = session_ok and msh = session_observe_fails
      and e = "LibraryError ''socket closed''" and ?tree0.0 = ?s and before = "[]" and after = "[]"]
  have a: "getAccessibilityTree session_down = Inl ?e" using t1 i by blast
  have b: "execute_item session_down session_ok = Inl ?e" using t1 a by blast
  have pre: "\<forall>p \<in> set [(session_ok, session_ok)]. \<exists>r. execute_item (fst p) (snd p) = Inr r"
    by (simp add: execute_item_session_ok)
  have "execute ([(session_ok, session_ok)] @ (session_down, session_ok) # [(session_ok, session_ok)]) =
      Inl ?e"
    using t1 b pre by blast
  then have c: "execute [(session_ok, session_ok), (session_down, session_ok),
      (session_ok, session_ok)] = Inl ?e"
    by simp
  have d: "getNodesMap session_down ?s = Inl ?e" using t2 i by blast
  have f: "execute_item session_ok session_down = Inl ?e"
    using t2 d getAccessibilityTree_session_ok by blast
  have g: "init session_observe_fails = None" "close session_observe_fails 0 = None"
    "observe session_observe_fails (createChatCompletion ?s) = Inl (LibraryError ''socket closed'')"
    by (simp_all add: session_observe_fails_def session_ok_def)
  have "getNodesMap session_observe_fails ?s = Inr Map.empty" using t3 g by blast
  then have h: "map_sum id dom (getNodesMap session_observe_fails ?s) = Inr {}" by simp
  show ?thesis using i a b c d f g(1,2) h getAccessibilityTree_session_ok by blast
qed

section \<open>Duplicate ids\<close>

text \<open>
  Two numbers have two numerals: \<open>decimal_value\<close> reads the numeral of a number back.
\<close>

definition decimal_value :: "string \<Rightarrow> nat" where
  "decimal_value ds = foldl (\<lambda>a c. 10 * a + (of_char c - 48)) 0 ds"

lemma digit_char_value: "d < 10 \<Longrightarrow> of_char (digit_char d) - (48::nat) = d"
proof -
  assume "d < 10"
  then have "d \<in> {0, 1, 2, 3, 4, 5, 6, 7, 8, 9}" by auto
  then show ?thesis by (auto simp: digit_char_def)
qed

lemma decimal_value_snoc:
  "decimal_value (ds @ [c]) = 10 * decimal_value ds + (of_char c - 48)"
  by (simp add: decimal_value_def)

lemma decimal_value_single: "decimal_value [c] = of_char c - 48"
  by (simp add: decimal_value_def)

lemma decimal_value_number_to_string: "decimal_value (number_to_string n) = n"
proof (induction n rule: number_to_string.induct)
  case (1 n)
  show ?case
  proof (cases "n < 10")
    case True
    have "number_to_string n = [digit_char n]"
      using True by (subst number_to_string.simps) simp
    then show ?thesis using True by (simp only: decimal_value_single digit_char_value)
  next
    case False
    have ih: "decimal_value (number_to_string (n div 10)) = n div 10"
      using 1 False by blast
    have e: "number_to_string n = number_to_string (n div 10) @ [digit_char (n mod 10)]"
      using False by (subst number_to_string.simps) simp
    have "n mod 10 < 10" by simp
    then have d: "of_char (digit_char (n mod 10)) - (48::nat) = n mod 10"
      by (rule digit_char_value)
    have "decimal_value (number_to_string n) = 10 * (n div 10) + n mod 10"
      by (simp only: e decimal_value_snoc ih d)
    then show ?thesis by simp
  qed
qed

lemma number_to_string_inject:
  assumes "number_to_string a = number_to_string b"
  shows "a = b"
proof -
  have "decimal_value (number_to_string a) = decimal_value (number_to_string b)"
    by (simp only: assms)
  then show ?thesis by (simp only: decimal_value_number_to_string)
qed


lemma whole_renumbered_nth:
  assumes "k < length (matchAll s)"
  shows "whole (matchAll (accessibilityTree (renumber nodesMap s)) ! k) = replace_lit k"
proof -
  have m: "matchAll (accessibilityTree (renumber nodesMap s)) = shifted 0 0 (matchAll s)"
    by (simp only: tree_renumber matchAll_renum)
  have "map whole (shifted 0 0 (matchAll s)) ! k = map replace_lit [0..<0 + length (matchAll s)] ! k"
    by (simp only: whole_shifted)
  then show ?thesis using assms by (simp add: m length_shifted)
qed

lemma length_matchAll_renumbered:
  "length (matchAll (accessibilityTree (renumber nodesMap s))) = length (matchAll s)"
  by (simp add: tree_renumber matchAll_renum length_shifted)

lemma matchAll_two_fives:
  "matchAll ''[5] x [5] y'' =
     [\<lparr>index = 0, whole = ''[5] '', group1 = Some ''5''\<rparr>,
      \<lparr>index = 6, whole = ''[5] '', group1 = Some ''5''\<rparr>]"
  by code_simp

lemma renumber_two_fives:
  "renumber (nodesMap(''5'' \<mapsto> v)) ''[5] x [5] y'' =
     \<lparr>accessibilityTree = ''[0] x [1] y'', json_xpaths = [Some v, Some v]\<rparr>"
  unfolding renumber_def matchAll_two_fives
  by (simp add: loop_body_def slice_def slice_from_def replace_lit_def prop_key_def
      digit_char_def number_to_string.simps)

text \<open>
  Claim C7. Markers with the same id are not merged. When two different places \<open>k\<close> and
  \<open>k'\<close> of a tree hold markers with the same id \<open>g\<close>, the output has as many markers
  as the input and the locator sequence as many entries; the marker at place \<open>k\<close>
  becomes \<open>[k] \<close> and the one at place \<open>k'\<close> becomes \<open>[k'] \<close>, two different
  texts; and the entries at \<open>k\<close> and at \<open>k'\<close> are both what the map gives for \<open>g\<close>,
  each read on its own. So the tree \<open>[5] x [5] y\<close> becomes \<open>[0] x [1] y\<close>, with the
  locator of the id \<open>5\<close> twice, whatever else the map holds and whatever the locator
  is.
\<close>

theorem duplicate_ids_renumbered_independently:
  "(k < length (matchAll s) \<and> k' < length (matchAll s) \<and> k \<noteq> k' \<and>
    group1 (matchAll s ! k) = Some g \<and> group1 (matchAll s ! k') = Some g \<longrightarrow>
      length (matchAll (accessibilityTree (renumber nodesMap s))) = length (matchAll s) \<and>
      length (json_xpaths (renumber nodesMap s)) = length (matchAll s) \<and>
      whole (matchAll (accessibilityTree (renumber nodesMap s)) ! k) =
        ''['' @ number_to_string k @ ''] '' \<and>
      whole (matchAll (accessibilityTree (renumber nodesMap s)) ! k') =
        ''['' @ number_to_string k' @ ''] '' \<and>
      number_to_string k \<noteq> number_to_string k' \<and>
      json_xpaths (renumber nodesMap s) ! k = nodesMap g \<and>
      json_xpaths (renumber nodesMap s) ! k' = nodesMap g) \<and>
   renumber (nodesMap(''5'' \<mapsto> v)) ''[5] x [5] y'' =
     \<lparr>accessibilityTree = ''[0] x [1] y'', json_xpaths = [Some v, Some v]\<rparr>"
proof (intro conjI impI)
  assume a: "k < length (matchAll s) \<and> k' < length (matchAll s) \<and> k \<noteq> k' \<and>
    group1 (matchAll s ! k) = Some g \<and> group1 (matchAll s ! k') = Some g"
  show "length (matchAll (accessibilityTree (renumber nodesMap s))) = length (matchAll s)"
    by (rule length_matchAll_renumbered)
  show "length (json_xpaths (renumber nodesMap s)) = length (matchAll s)"
    by (simp add: xpaths_renumber)
  show "whole (matchAll (accessibilityTree (renumber nodesMap s)) ! k) =
        ''['' @ number_to_string k @ ''] ''"
    using a whole_renumbered_nth[of k s nodesMap] by (simp add: replace_lit_def)
  show "whole (matchAll (accessibilityTree (renumber nodesMap s)) ! k') =
        ''['' @ number_to_string k' @ ''] ''"
    using a whole_renumbered_nth[of k' s nodesMap] by (simp add: replace_lit_def)
  show "number_to_string k \<noteq> number_to_string k'"
    using a number_to_string_inject by blast
  show "json_xpaths (renumber nodesMap s) ! k = nodesMap g"
    using a by (simp add: xpaths_renumber prop_key_def)
  show "json_xpaths (renumber nodesMap s) ! k' = nodesMap g"
    using a by (simp add: xpaths_renumber prop_key_def)
next
  show "renumber (nodesMap(''5'' \<mapsto> v)) ''[5] x [5] y'' =
     \<lparr>accessibilityTree = ''[0] x [1] y'', json_xpaths = [Some v, Some v]\<rparr>"
    by (rule renumber_two_fives)
qed

theorem duplicate_ids_renumbered_independently_witness:
  "(0::nat) < length (matchAll ''[5] x [5] y'') \<and>
   (1::nat) < length (matchAll ''[5] x [5] y'') \<and>
   group1 (matchAll ''[5] x [5] y'' ! 0) = Some ''5'' \<and>
   group1 (matchAll ''[5] x [5] y'' ! 1) = Some ''5'' \<and>
   whole (matchAll (accessibilityTree (renumber [''5'' \<mapsto> ''loc-Z''] ''[5] x [5] y'')) ! 0) =
     ''[0] '' \<and>
   whole (matchAll (accessibilityTree (renumber [''5'' \<mapsto> ''loc-Z''] ''[5] x [5] y'')) ! 1) =
     ''[1] '' \<and>
   json_xpaths (renumber [''5'' \<mapsto> ''loc-Z''] ''[5] x [5] y'') ! 0 = Some ''loc-Z'' \<and>
   json_xpaths (renumber [''5'' \<mapsto> ''loc-Z''] ''[5] x [5] y'') ! 1 = Some ''loc-Z''"
proof -
  let ?s = "''[5] x [5] y''"
  let ?mp = "[''5'' \<mapsto> ''loc-Z'']"
  have h: "(0::nat) < length (matchAll ?s) \<and> (1::nat) < length (matchAll ?s) \<and> (0::nat) \<noteq> 1 \<and>
    group1 (matchAll ?s ! 0) = Some ''5'' \<and> group1 (matchAll ?s ! 1) = Some ''5''"
    by (simp add: matchAll_two_fives)
  have n: "number_to_string 0 = ''0''" "number_to_string 1 = ''1''"
    by (simp_all add: number_to_string.simps digit_char_def)
  have "(0::nat) < length (matchAll ?s) \<and> (1::nat) < length (matchAll ?s) \<and> (0::nat) \<noteq> 1 \<and>
    group1 (matchAll ?s ! 0) = Some ''5'' \<and> group1 (matchAll ?s ! 1) = Some ''5'' \<longrightarrow>
      length (matchAll (accessibilityTree (renumber ?mp ?s))) = length (matchAll ?s) \<and>
      length (json_xpaths (renumber ?mp ?s)) = length (matchAll ?s) \<and>
      whole (matchAll (accessibilityTree (renumber ?mp ?s)) ! 0) =
        ''['' @ number_to_string 0 @ ''] '' \<and>
      whole (matchAll (accessibilityTree (renumber ?mp ?s)) ! 1) =
        ''['' @ number_to_string 1 @ ''] '' \<and>
      number_to_string 0 \<noteq> number_to_string 1 \<and>
      json_xpaths (renumber ?mp ?s) ! 0 = ?mp ''5'' \<and>
      json_xpaths (renumber ?mp ?s) ! 1 = ?mp ''5''"
    by (rule conjunct1[OF duplicate_ids_renumbered_independently[where k = 0 and k' = 1
          and s = ?s and g = "''5''" and nodesMap = ?mp]])
  then have c: "whole (matchAll (accessibilityTree (renumber ?mp ?s)) ! 0) =
        ''['' @ number_to_string 0 @ ''] '' \<and>
      whole (matchAll (accessibilityTree (renumber ?mp ?s)) ! 1) =
        ''['' @ number_to_string 1 @ ''] '' \<and>
      json_xpaths (renumber ?mp ?s) ! 0 = ?mp ''5'' \<and>
      json_xpaths (renumber ?mp ?s) ! 1 = ?mp ''5''"
    using h by blast
  show ?thesis using h c unfolding n by simp
qed

end
